theory Spec2Isabelle
  imports Main "HOL-Library.Char_ord" "HOL-Library.List_Lexorder"
begin

section \<open>Characters and strings of the source language\<close>

text \<open>
  The generator \<^verbatim>\<open>scripts/generate_mono_signatures.py\<close> works on Python \<^verbatim>\<open>str\<close>
  values. A string is modelled as a \<^typ>\<open>string\<close>; a \<^typ>\<open>char\<close> stands for the code
  point of the same number, so the model covers the texts whose code points are below 256.
  The character predicates below are Python's on that range: \<^verbatim>\<open>str.isspace\<close> (also the
  class \<^verbatim>\<open>\s\<close> of \<^verbatim>\<open>re\<close>), \<^verbatim>\<open>str.isdigit\<close>, the word class \<^verbatim>\<open>\w\<close> and
  \<^verbatim>\<open>str.lower\<close>. Integers are unbounded, as Python's are.
\<close>

definition code :: "char \<Rightarrow> nat" where
  "code c = of_char c"

definition isspace :: "char \<Rightarrow> bool" where
  "isspace c = (let n = code c in
     (9 \<le> n \<and> n \<le> 13) \<or> (28 \<le> n \<and> n \<le> 32) \<or> n = 133 \<or> n = 160)"

definition is_decimal :: "char \<Rightarrow> bool" where
  "is_decimal c = (let n = code c in 48 \<le> n \<and> n \<le> 57)"

definition isdigit :: "char \<Rightarrow> bool" where
  "isdigit c = (let n = code c in (48 \<le> n \<and> n \<le> 57) \<or> n = 178 \<or> n = 179 \<or> n = 185)"

definition is_upper_az :: "char \<Rightarrow> bool" where
  "is_upper_az c = (let n = code c in 65 \<le> n \<and> n \<le> 90)"

definition is_lower_az :: "char \<Rightarrow> bool" where
  "is_lower_az c = (let n = code c in 97 \<le> n \<and> n \<le> 122)"

definition is_word :: "char \<Rightarrow> bool" where
  "is_word c = (let n = code c in
     (48 \<le> n \<and> n \<le> 57) \<or> (65 \<le> n \<and> n \<le> 90) \<or> n = 95 \<or> (97 \<le> n \<and> n \<le> 122)
     \<or> n = 170 \<or> n = 178 \<or> n = 179 \<or> n = 181 \<or> n = 185 \<or> n = 186
     \<or> (188 \<le> n \<and> n \<le> 190) \<or> (192 \<le> n \<and> n \<le> 214) \<or> (216 \<le> n \<and> n \<le> 246)
     \<or> 248 \<le> n)"

definition lower_char :: "char \<Rightarrow> char" where
  "lower_char c = (let n = code c in
     if (65 \<le> n \<and> n \<le> 90) \<or> (192 \<le> n \<and> n \<le> 214) \<or> (216 \<le> n \<and> n \<le> 222)
     then char_of (n + 32) else c)"

definition lower :: "string \<Rightarrow> string" where
  "lower s = map lower_char s"

definition strip :: "string \<Rightarrow> string" where
  "strip s = rev (dropWhile isspace (rev (dropWhile isspace s)))"

definition startswith :: "string \<Rightarrow> string \<Rightarrow> bool" where
  "startswith s p = (take (length p) s = p)"

definition endswith :: "string \<Rightarrow> string \<Rightarrow> bool" where
  "endswith s p = (drop (length s - length p) s = p)"

text \<open>\<^verbatim>\<open>s.replace(" ", "")\<close>: every space is removed.\<close>

definition remove_spaces :: "string \<Rightarrow> string" where
  "remove_spaces s = filter (\<lambda>c. c \<noteq> CHR '' '') s"

text \<open>\<^verbatim>\<open>s.split(" ")\<close>: the pieces between single spaces, empty pieces kept.\<close>

fun split_space :: "string \<Rightarrow> string list" where
  "split_space [] = [[]]"
| "split_space (c # cs) =
     (if c = CHR '' '' then [] # split_space cs
      else (case split_space cs of [] \<Rightarrow> [[c]] | t # ts \<Rightarrow> (c # t) # ts))"

text \<open>\<^verbatim>\<open>" ".join(tokens)\<close>.\<close>

fun join_space :: "string list \<Rightarrow> string" where
  "join_space [] = []"
| "join_space [t] = t"
| "join_space (t # ts) = t @ CHR '' '' # join_space ts"

datatype error = ValueError | KeyError

text \<open>
  \<^verbatim>\<open>int(digits)\<close> on a string of \<^verbatim>\<open>isdigit\<close> characters: the decimal value when every
  character is one of \<^verbatim>\<open>0\<close> to \<^verbatim>\<open>9\<close> and there are at most 4300 of them. Python raises
  \<^verbatim>\<open>ValueError\<close> on the empty string, on the superscript digits, which \<^verbatim>\<open>isdigit\<close>
  accepts, and on a string of more than 4300 digits, the interpreter's bound on the
  conversion of a decimal string (leading zeros count).
\<close>

definition py_int :: "string \<Rightarrow> error + nat" where
  "py_int ds =
     (if ds \<noteq> [] \<and> list_all is_decimal ds \<and> length ds \<le> 4300
      then Inr (foldl (\<lambda>a c. 10 * a + (code c - 48)) 0 ds)
      else Inl ValueError)"

section \<open>Regular expressions\<close>

text \<open>
  The patterns of the generator use character classes, greedy and lazy repetition of a
  class, the anchors \<^verbatim>\<open>\b\<close>, \<^verbatim>\<open>^\<close> and \<^verbatim>\<open>$\<close>, alternation and one capture group. A pattern
  is a list of nodes, matched from left to right by backtracking in the order of the
  \<^verbatim>\<open>re\<close> module: a greedy repetition first takes one more character and gives it back
  when the rest fails, a lazy one first tries the rest, an alternation tries its branches
  in order.
\<close>

datatype atom =
    Cls "char \<Rightarrow> bool"
  | Star "char \<Rightarrow> bool"
  | Lazy "char \<Rightarrow> bool"
  | WordB
  | Bol
  | Eol
  | EndS
  | GOpen
  | GClose

datatype node = A atom | Alt "atom list list"

type_synonym pattern = "node list"

fun node_size :: "node \<Rightarrow> nat" where
  "node_size (A a) = 1"
| "node_size (Alt bs) = Suc (sum_list (map (\<lambda>b. Suc (length b)) bs))"

definition pattern_size :: "pattern \<Rightarrow> nat" where
  "pattern_size p = sum_list (map node_size p)"

definition word_before :: "char option \<Rightarrow> bool" where
  "word_before p = (case p of None \<Rightarrow> False | Some c \<Rightarrow> is_word c)"

definition word_after :: "string \<Rightarrow> bool" where
  "word_after s = (case s of [] \<Rightarrow> False | c # _ \<Rightarrow> is_word c)"

text \<open>
  \<open>rmatch pat prev s n g\<close> matches \<open>pat\<close> at the start of \<open>s\<close>, where \<open>prev\<close> is the
  character before \<open>s\<close> in the whole text (none at its start), \<open>n\<close> counts the characters
  consumed so far and \<open>g\<close> holds the offsets of group 1. The result is the length of the
  match with the group's offsets, or \<open>None\<close>. \<open>Bol\<close> and \<open>Eol\<close> are \<^verbatim>\<open>^\<close> and \<^verbatim>\<open>$\<close> under
  \<^verbatim>\<open>re.MULTILINE\<close>; \<open>EndS\<close> is \<^verbatim>\<open>$\<close> without it, which also holds just before a final
  newline.
\<close>

function rmatch ::
  "pattern \<Rightarrow> char option \<Rightarrow> string \<Rightarrow> nat \<Rightarrow> nat \<times> nat \<Rightarrow> (nat \<times> nat \<times> nat) option" where
  "rmatch [] p s n g = Some (n, g)"
| "rmatch (A (Cls P) # r) p [] n g = None"
| "rmatch (A (Cls P) # r) p (c # cs) n g =
     (if P c then rmatch r (Some c) cs (Suc n) g else None)"
| "rmatch (A (Star P) # r) p [] n g = rmatch r p [] n g"
| "rmatch (A (Star P) # r) p (c # cs) n g =
     (if P c then
        (case rmatch (A (Star P) # r) (Some c) cs (Suc n) g of
           Some m \<Rightarrow> Some m
         | None \<Rightarrow> rmatch r p (c # cs) n g)
      else rmatch r p (c # cs) n g)"
| "rmatch (A (Lazy P) # r) p [] n g = rmatch r p [] n g"
| "rmatch (A (Lazy P) # r) p (c # cs) n g =
     (case rmatch r p (c # cs) n g of
        Some m \<Rightarrow> Some m
      | None \<Rightarrow> if P c then rmatch (A (Lazy P) # r) (Some c) cs (Suc n) g else None)"
| "rmatch (A WordB # r) p s n g =
     (if word_before p \<noteq> word_after s then rmatch r p s n g else None)"
| "rmatch (A Bol # r) p s n g =
     (if p = None \<or> p = Some CHR ''\<newline>'' then rmatch r p s n g else None)"
| "rmatch (A Eol # r) p s n g =
     (if s = [] \<or> hd s = CHR ''\<newline>'' then rmatch r p s n g else None)"
| "rmatch (A EndS # r) p s n g =
     (if s = [] \<or> s = [CHR ''\<newline>''] then rmatch r p s n g else None)"
| "rmatch (A GOpen # r) p s n g = rmatch r p s n (n, snd g)"
| "rmatch (A GClose # r) p s n g = rmatch r p s n (fst g, n)"
| "rmatch (Alt [] # r) p s n g = None"
| "rmatch (Alt (b # bs) # r) p s n g =
     (case rmatch (map A b @ r) p s n g of
        Some m \<Rightarrow> Some m
      | None \<Rightarrow> rmatch (Alt bs # r) p s n g)"
  by pat_completeness auto
termination
  by (relation "measures [\<lambda>(pat, p, s, n, g). pattern_size pat, \<lambda>(pat, p, s, n, g). length s]")
     (auto simp: pattern_size_def comp_def sum_list_triv)

text \<open>A literal is a sequence of one-character classes.\<close>

definition lit :: "string \<Rightarrow> atom list" where
  "lit s = map (\<lambda>x. Cls (\<lambda>c. c = x)) s"

definition any_char :: "char \<Rightarrow> bool" where
  "any_char c = True"

text \<open>The dot: every character but the newline.\<close>

definition dot :: "char \<Rightarrow> bool" where
  "dot c = (c \<noteq> CHR ''\<newline>'')"

text \<open>A replacement template is a fixed text or \<^verbatim>\<open>\1\<close>, the text of group 1.\<close>

datatype repl = Const string | Group1

fun expand :: "repl \<Rightarrow> string \<Rightarrow> nat \<times> nat \<Rightarrow> string" where
  "expand (Const t) s g = t"
| "expand Group1 s (gs, ge) = take (ge - gs) (drop gs s)"

text \<open>
  \<^verbatim>\<open>pattern.sub(repl, text)\<close>: the text is scanned from left to right; at each position
  the pattern is tried, a match is replaced and the scan goes on behind it, otherwise the
  character is copied. No pattern of the generator matches the empty string; were there
  such a match, the template would be inserted and the character copied.
\<close>

function re_sub_from :: "pattern \<Rightarrow> repl \<Rightarrow> char option \<Rightarrow> string \<Rightarrow> string" where
  "re_sub_from pat rep p [] =
     (case rmatch pat p [] 0 (0, 0) of
        None \<Rightarrow> []
      | Some (n, g) \<Rightarrow> expand rep [] g)"
| "re_sub_from pat rep p (c # cs) =
     (case rmatch pat p (c # cs) 0 (0, 0) of
        None \<Rightarrow> c # re_sub_from pat rep (Some c) cs
      | Some (n, g) \<Rightarrow>
          if n = 0 then expand rep (c # cs) g @ c # re_sub_from pat rep (Some c) cs
          else expand rep (c # cs) g
               @ re_sub_from pat rep (Some ((c # cs) ! (n - 1))) (drop n (c # cs)))"
  by pat_completeness auto
termination
  by (relation "measure (\<lambda>(pat, rep, p, s). length s)") auto

definition re_sub :: "pattern \<Rightarrow> repl \<Rightarrow> string \<Rightarrow> string" where
  "re_sub pat rep s = re_sub_from pat rep None s"

text \<open>
  \<^verbatim>\<open>pattern.finditer(text)\<close>, reduced to what the generator reads of each match: the text
  of group 1.
\<close>

function re_groups_from :: "pattern \<Rightarrow> char option \<Rightarrow> string \<Rightarrow> string list" where
  "re_groups_from pat p [] =
     (case rmatch pat p [] 0 (0, 0) of
        None \<Rightarrow> []
      | Some (n, g) \<Rightarrow> [expand Group1 [] g])"
| "re_groups_from pat p (c # cs) =
     (case rmatch pat p (c # cs) 0 (0, 0) of
        None \<Rightarrow> re_groups_from pat (Some c) cs
      | Some (n, g) \<Rightarrow>
          if n = 0 then expand Group1 (c # cs) g # re_groups_from pat (Some c) cs
          else expand Group1 (c # cs) g
               # re_groups_from pat (Some ((c # cs) ! (n - 1))) (drop n (c # cs)))"
  by pat_completeness auto
termination
  by (relation "measure (\<lambda>(pat, p, s). length s)") auto

definition re_groups :: "pattern \<Rightarrow> string \<Rightarrow> string list" where
  "re_groups pat s = re_groups_from pat None s"

text \<open>
  \<^verbatim>\<open>re.search(pattern, text)\<close>: the first position, from the left, where the pattern
  matches. The result is the start of the match, its length and the offsets of group 1
  within the match.
\<close>

fun re_search_from :: "pattern \<Rightarrow> char option \<Rightarrow> string \<Rightarrow> nat \<Rightarrow> (nat \<times> nat \<times> nat \<times> nat) option" where
  "re_search_from pat p [] i =
     (case rmatch pat p [] 0 (0, 0) of None \<Rightarrow> None | Some m \<Rightarrow> Some (i, m))"
| "re_search_from pat p (c # cs) i =
     (case rmatch pat p (c # cs) 0 (0, 0) of
        None \<Rightarrow> re_search_from pat (Some c) cs (Suc i)
      | Some m \<Rightarrow> Some (i, m))"

definition re_search :: "pattern \<Rightarrow> string \<Rightarrow> (nat \<times> nat \<times> nat \<times> nat) option" where
  "re_search pat s = re_search_from pat None s 0"

section \<open>The patterns of the generator\<close>

text \<open>\<^verbatim>\<open>MONO_API\s+([\s\S]*?);\<close>\<close>

definition FUNCTION_PATTERN :: pattern where
  "FUNCTION_PATTERN =
     map A (lit ''MONO_API'' @ [Cls isspace, Star isspace, GOpen, Lazy any_char, GClose]
            @ lit '';'')"

text \<open>\<^verbatim>\<open>typedef\s+enum\b[^{}]*{[\s\S]*?}\s*(\w+)\s*;\<close>\<close>

definition not_brace :: "char \<Rightarrow> bool" where
  "not_brace c = (c \<noteq> CHR ''{'' \<and> c \<noteq> CHR ''}'')"

definition ENUM_PATTERN :: pattern where
  "ENUM_PATTERN =
     map A (lit ''typedef'' @ [Cls isspace, Star isspace] @ lit ''enum''
            @ [WordB, Star not_brace] @ lit ''{'' @ [Lazy any_char] @ lit ''}''
            @ [Star isspace, GOpen, Cls is_word, Star is_word, GClose, Star isspace]
            @ lit '';'')"

text \<open>\<^verbatim>\<open>\s+\<close>\<close>

definition WHITESPACE_RE :: pattern where
  "WHITESPACE_RE = map A [Cls isspace, Star isspace]"

text \<open>\<^verbatim>\<open>\bMONO_[A-Z0-9_]+\b\<close>\<close>

definition macro_char :: "char \<Rightarrow> bool" where
  "macro_char c = (is_upper_az c \<or> is_decimal c \<or> c = CHR ''_'')"

definition MACRO_RE :: pattern where
  "MACRO_RE = map A ([WordB] @ lit ''MONO_'' @ [Cls macro_char, Star macro_char, WordB])"

text \<open>\<^verbatim>\<open>\b(struct|enum)\b\s*\<close>\<close>

definition STRUCT_ENUM_RE :: pattern where
  "STRUCT_ENUM_RE =
     [A WordB, A GOpen, Alt [lit ''struct'', lit ''enum''], A GClose, A WordB, A (Star isspace)]"

text \<open>\<^verbatim>\<open>/\*[\s\S]*?\*/\<close>\<close>

definition COMMENT_BLOCK_RE :: pattern where
  "COMMENT_BLOCK_RE = map A (lit ''/*'' @ [Lazy any_char] @ lit ''*/'')"

text \<open>\<^verbatim>\<open>([^:]|^)//.*$\<close> with \<^verbatim>\<open>re.MULTILINE\<close>\<close>

definition not_colon :: "char \<Rightarrow> bool" where
  "not_colon c = (c \<noteq> CHR '':'')"

definition COMMENT_LINE_RE :: pattern where
  "COMMENT_LINE_RE =
     [A GOpen, Alt [[Cls not_colon], [Bol]], A GClose] @ map A (lit ''//'' @ [Star dot, Eol])"

text \<open>\<^verbatim>\<open>\[[^\]]*\]\<close>\<close>

definition not_rbracket :: "char \<Rightarrow> bool" where
  "not_rbracket c = (c \<noteq> CHR '']'')"

definition ARRAY_RE :: pattern where
  "ARRAY_RE = map A (lit ''['' @ [Star not_rbracket] @ lit '']'')"

text \<open>\<^verbatim>\<open>\s*=\s*[^,]+$\<close>\<close>

definition not_comma :: "char \<Rightarrow> bool" where
  "not_comma c = (c \<noteq> CHR '','')"

definition DEFAULT_VALUE_RE :: pattern where
  "DEFAULT_VALUE_RE =
     map A ([Star isspace] @ lit ''='' @ [Star isspace, Cls not_comma, Star not_comma, EndS])"

text \<open>\<^verbatim>\<open>\s*\*\s*\<close>\<close>

definition POINTER_SPACING_RE :: pattern where
  "POINTER_SPACING_RE = map A ([Star isspace] @ lit ''*'' @ [Star isspace])"

text \<open>\<^verbatim>\<open>([A-Za-z_][A-Za-z0-9_]*)$\<close>, the pattern of the name in a declaration.\<close>

definition ident_start :: "char \<Rightarrow> bool" where
  "ident_start c = (is_upper_az c \<or> is_lower_az c \<or> c = CHR ''_'')"

definition ident_char :: "char \<Rightarrow> bool" where
  "ident_char c = (is_upper_az c \<or> is_lower_az c \<or> is_decimal c \<or> c = CHR ''_'')"

definition NAME_RE :: pattern where
  "NAME_RE = map A [GOpen, Cls ident_start, Star ident_char, GClose, EndS]"

text \<open>\<^verbatim>\<open>\b(const|volatile|restrict)\b\<close>\<close>

definition QUALIFIER_RE :: pattern where
  "QUALIFIER_RE =
     [A WordB, A GOpen, Alt [lit ''const'', lit ''volatile'', lit ''restrict''], A GClose,
      A WordB]"

section \<open>Comments, enum types and declarations\<close>

record FunctionDecl =
  name :: string
  return_type :: string
  parameters :: "string list"

definition strip_comments :: "string \<Rightarrow> string" where
  "strip_comments source =
     (let without_block = re_sub COMMENT_BLOCK_RE (Const '' '') source
      in re_sub COMMENT_LINE_RE Group1 without_block)"

definition collect_enum_types :: "string \<Rightarrow> string set" where
  "collect_enum_types source = set (re_groups ENUM_PATTERN source)"

text \<open>
  The first loop of \<^verbatim>\<open>parse_parameters\<close>: the text is cut at the commas met at depth 0;
  \<open>depth\<close> is a Python integer and may go below 0.
\<close>

fun split_params :: "string \<Rightarrow> int \<Rightarrow> string \<Rightarrow> string list" where
  "split_params [] depth current = (if current \<noteq> [] then [current] else [])"
| "split_params (ch # rest) depth current =
     (if ch = CHR ''('' then split_params rest (depth + 1) (current @ [ch])
      else if ch = CHR '')'' then split_params rest (depth - 1) (current @ [ch])
      else if ch = CHR '','' \<and> depth = 0 then current # split_params rest depth []
      else split_params rest depth (current @ [ch]))"

text \<open>The six substitutions a trimmed fragment goes through before the variadic test.\<close>

definition normalize_param :: "string \<Rightarrow> string" where
  "normalize_param p0 =
     (let p = re_sub MACRO_RE (Const '' '') p0;
          p = re_sub ARRAY_RE (Const ''*'') p;
          p = re_sub DEFAULT_VALUE_RE (Const []) p;
          p = re_sub QUALIFIER_RE (Const '' '') p;
          p = re_sub POINTER_SPACING_RE (Const ''*'') p
      in strip (re_sub WHITESPACE_RE (Const '' '') p))"

text \<open>
  The body of the second loop of \<^verbatim>\<open>parse_parameters\<close> for one fragment: \<open>None\<close> when the
  loop appends nothing, else the type it appends.
\<close>

definition param_type :: "string \<Rightarrow> string option" where
  "param_type param =
     (let p = strip param in
      if p = [] \<or> p = ''void'' then None
      else let p = normalize_param p in
        if p = ''...'' then None
        else let tokens = split_space p;
                 tokens = (if length tokens > 1 then butlast tokens else tokens);
                 type_part = strip (join_space tokens);
                 type_part = re_sub POINTER_SPACING_RE (Const ''*'') type_part
             in if type_part \<noteq> [] then Some type_part else None)"

definition parse_parameters :: "string \<Rightarrow> string list" where
  "parse_parameters param_text =
     (if param_text = [] \<or> param_text = ''void'' then []
      else List.map_filter param_type (split_params param_text 0 []))"

text \<open>\<^verbatim>\<open>tail.rsplit(")", 1)[0]\<close>: the text before the last \<^verbatim>\<open>)\<close>, all of it when there is none.\<close>

definition rsplit_head :: "string \<Rightarrow> string" where
  "rsplit_head s =
     (if CHR '')'' \<in> set s then rev (tl (dropWhile (\<lambda>c. c \<noteq> CHR '')'') (rev s))) else s)"

text \<open>The five substitutions at the head of \<^verbatim>\<open>parse_function_declaration\<close>.\<close>

definition normalize_declaration :: "string \<Rightarrow> string" where
  "normalize_declaration declaration =
     (let text = strip (re_sub WHITESPACE_RE (Const '' '') declaration);
          text = re_sub MACRO_RE (Const '' '') text;
          text = re_sub STRUCT_ENUM_RE (Const []) text;
          text = re_sub POINTER_SPACING_RE (Const ''*'') text
      in strip (re_sub WHITESPACE_RE (Const '' '') text))"

definition parse_function_declaration :: "string \<Rightarrow> FunctionDecl option" where
  "parse_function_declaration declaration =
     (let text = normalize_declaration declaration in
      if CHR ''('' \<notin> set text \<or> CHR '')'' \<notin> set text then None
      else
        let before_params = takeWhile (\<lambda>c. c \<noteq> CHR ''('') text;
            params_tail = tl (dropWhile (\<lambda>c. c \<noteq> CHR ''('') text);
            params_raw = strip (rsplit_head params_tail);
            before_params = strip before_params
        in case re_search NAME_RE before_params of
             None \<Rightarrow> None
           | Some (start, n, gs, ge) \<Rightarrow>
               let name = take (ge - gs) (drop (start + gs) before_params);
                   return_type = strip (take start before_params)
               in if return_type = [] then None
                  else Some \<lparr>name = name, return_type = return_type,
                             parameters = parse_parameters params_raw\<rparr>)"

definition parse_functions :: "string \<Rightarrow> FunctionDecl list" where
  "parse_functions source =
     List.map_filter parse_function_declaration (re_groups FUNCTION_PATTERN source)"

definition normalize_type :: "string \<Rightarrow> string" where
  "normalize_type type_name =
     (let v = strip type_name;
          v = re_sub QUALIFIER_RE (Const '' '') v;
          v = re_sub STRUCT_ENUM_RE (Const []) v;
          v = re_sub POINTER_SPACING_RE (Const ''*'') v
      in strip (re_sub WHITESPACE_RE (Const '' '') v))"

section \<open>The type classifier\<close>

definition NUMBER_TYPE_MAP :: "(string \<times> string) list" where
  "NUMBER_TYPE_MAP =
    [(''void'', ''void''),
     (''bool'', ''bool''),
     (''_bool'', ''bool''),
     (''boolean'', ''bool''),
     (''char'', ''char''),
     (''signedchar'', ''int''),
     (''unsignedchar'', ''uchar''),
     (''short'', ''int''),
     (''shortint'', ''int''),
     (''unsignedshort'', ''uint''),
     (''unsignedshortint'', ''uint''),
     (''int'', ''int''),
     (''int32'', ''int''),
     (''long'', ''long''),
     (''longint'', ''long''),
     (''unsignedlong'', ''ulong''),
     (''unsignedlongint'', ''ulong''),
     (''unsignedint'', ''uint''),
     (''uint'', ''uint''),
     (''uint32'', ''uint''),
     (''int64'', ''int64''),
     (''unsignedint64'', ''uint64''),
     (''double'', ''double''),
     (''float'', ''float''),
     (''size_t'', ''size_t''),
     (''time_t'', ''long'')]"

definition GENERIC_INT_ALIASES :: "(string \<times> string) list" where
  "GENERIC_INT_ALIASES =
    [(''mono_bool'', ''int''),
     (''mono_boolean'', ''int''),
     (''mono_unichar2'', ''uint''),
     (''gunichar2'', ''uint''),
     (''gboolean'', ''int''),
     (''gint'', ''int''),
     (''guint'', ''uint''),
     (''gint32'', ''int''),
     (''guint32'', ''uint''),
     (''gint16'', ''int''),
     (''guint16'', ''uint''),
     (''gint8'', ''int''),
     (''guint8'', ''uint''),
     (''mono_string_hash'', ''uint''),
     (''mono_marshaltype'', ''int'')]"

definition POINTER_SIZED_INTS :: "string list" where
  "POINTER_SIZED_INTS =
    [''intptr_t'', ''uintptr_t'', ''ssize_t'', ''gssize'', ''gsize'', ''ptrdiff_t'']"

text \<open>
  The two \<^verbatim>\<open>_t\<close> branches of \<^verbatim>\<open>map_native_type\<close> share their body: the digits of the
  canonical name are joined and, when there are any, read as an integer and compared
  with 32.
\<close>

definition width_rule :: "string \<Rightarrow> string \<Rightarrow> string \<Rightarrow> error + string" where
  "width_rule canonical wide narrow =
     (let digits = filter isdigit canonical in
      if digits \<noteq> [] then
        (case py_int digits of
           Inl e \<Rightarrow> Inl e
         | Inr n \<Rightarrow> if n > 32 then Inr wide else Inr narrow)
      else Inr narrow)"

definition map_native_type :: "string \<Rightarrow> string set \<Rightarrow> error + string" where
  "map_native_type type_name enum_types =
     (if type_name = [] then Inr ''void''
      else if CHR ''*'' \<in> set type_name \<or> endswith type_name '']'' then Inr ''pointer''
      else let canonical = lower (remove_spaces type_name) in
        if type_name \<in> enum_types then Inr ''int''
        else if canonical \<in> set (map fst NUMBER_TYPE_MAP)
          then Inr (the (map_of NUMBER_TYPE_MAP canonical))
        else if canonical \<in> set (map fst GENERIC_INT_ALIASES)
          then Inr (the (map_of GENERIC_INT_ALIASES canonical))
        else if canonical \<in> set POINTER_SIZED_INTS then
          (if startswith canonical ''u'' \<or> startswith canonical ''gsize''
           then Inr ''size_t'' else Inr ''long'')
        else if endswith canonical ''_t''
                \<and> startswith (take (length canonical - 2) canonical) ''u''
          then width_rule canonical ''uint64'' ''uint''
        else if endswith canonical ''_t''
          then width_rule canonical ''int64'' ''int''
        else if canonical \<in> set POINTER_SIZED_INTS then
          (if CHR ''u'' \<in> set canonical then Inr ''size_t'' else Inr ''long'')
        else Inr ''pointer'')"


section \<open>The registry\<close>

record signature =
  sig_name :: string
  retType :: string
  argTypes :: "string list"

text \<open>
  The dictionary \<^verbatim>\<open>functions\<close> is a list of pairs in insertion order with distinct keys.
\<close>

type_synonym registry = "(string \<times> signature) list"

definition setdefault :: "registry \<Rightarrow> string \<Rightarrow> signature \<Rightarrow> registry" where
  "setdefault fs k v = (if k \<in> set (map fst fs) then fs else fs @ [(k, v)])"

text \<open>The list comprehension over the argument types; the first error ends it.\<close>

fun map_arg_types :: "string list \<Rightarrow> string set \<Rightarrow> error + string list" where
  "map_arg_types [] enum_types = Inr []"
| "map_arg_types (a # as) enum_types =
     (case map_native_type a enum_types of
        Inl e \<Rightarrow> Inl e
      | Inr t \<Rightarrow>
          (case map_arg_types as enum_types of
             Inl e \<Rightarrow> Inl e
           | Inr ts \<Rightarrow> Inr (t # ts)))"

definition keep_decl :: "string \<Rightarrow> bool" where
  "keep_decl n = (startswith n ''mono'' \<or> startswith n ''monoeg'')"

text \<open>
  The two nested iterations of \<^verbatim>\<open>generate\<close>. The test on the name of a declaration is a parameter
  \<open>keep\<close>, which \<^verbatim>\<open>generate\<close> sets to \<open>keep_decl\<close>. The headers are given in the order in
  which they are read, the sorted order of their paths.
\<close>

text \<open>The dictionary \<^verbatim>\<open>mapped\<close> built for one declaration.\<close>

definition mapped :: "FunctionDecl \<Rightarrow> string set \<Rightarrow> error + signature" where
  "mapped decl enum_types =
     (let return_type = normalize_type (return_type decl);
          arg_types = map normalize_type (parameters decl)
      in case map_native_type return_type enum_types of
           Inl e \<Rightarrow> Inl e
         | Inr rt \<Rightarrow>
             (case map_arg_types arg_types enum_types of
                Inl e \<Rightarrow> Inl e
              | Inr ats \<Rightarrow> Inr \<lparr>sig_name = name decl, retType = rt, argTypes = ats\<rparr>))"

fun decl_loop ::
  "(string \<Rightarrow> bool) \<Rightarrow> FunctionDecl list \<Rightarrow> string set \<Rightarrow> registry \<Rightarrow> error + registry" where
  "decl_loop keep [] enum_types fs = Inr fs"
| "decl_loop keep (decl # rest) enum_types fs =
     (if \<not> keep (name decl) then decl_loop keep rest enum_types fs
      else case mapped decl enum_types of
             Inl e \<Rightarrow> Inl e
           | Inr m \<Rightarrow> decl_loop keep rest enum_types (setdefault fs (name decl) m))"

fun header_loop ::
  "(string \<Rightarrow> bool) \<Rightarrow> string list \<Rightarrow> string set \<Rightarrow> registry \<Rightarrow> error + registry" where
  "header_loop keep [] enum_types fs = Inr fs"
| "header_loop keep (source # rest) enum_types fs =
     (let sanitized = strip_comments source;
          enum_types = enum_types \<union> collect_enum_types sanitized
      in case decl_loop keep (parse_functions sanitized) enum_types fs of
           Inl e \<Rightarrow> Inl e
         | Inr fs' \<Rightarrow> header_loop keep rest enum_types fs')"

text \<open>\<^verbatim>\<open>functions[name] for name in sorted(functions)\<close>\<close>

fun entries_of :: "registry \<Rightarrow> string list \<Rightarrow> error + (string \<times> signature) list" where
  "entries_of fs [] = Inr []"
| "entries_of fs (n # ns) =
     (case map_of fs n of
        None \<Rightarrow> Inl KeyError
      | Some v \<Rightarrow>
          (case entries_of fs ns of
             Inl e \<Rightarrow> Inl e
           | Inr r \<Rightarrow> Inr ((n, v) # r)))"

text \<open>
  The registry that \<^verbatim>\<open>generate\<close> hands to \<^verbatim>\<open>format_entry\<close>: the entries in the order in
  which they are written to the output file.
\<close>

definition generate_with ::
  "(string \<Rightarrow> bool) \<Rightarrow> string list \<Rightarrow> error + (string \<times> signature) list" where
  "generate_with keep include_files =
     (case header_loop keep include_files {} [] of
        Inl e \<Rightarrow> Inl e
      | Inr fs \<Rightarrow> entries_of fs (sort (map fst fs)))"

definition generate :: "string list \<Rightarrow> error + (string \<times> signature) list" where
  "generate include_files = generate_with keep_decl include_files"

text \<open>
  The test on the name with its second disjunct removed, and the six names of the
  pointer-sized rule written out, for comparison with the code.
\<close>

definition keep_mono :: "string \<Rightarrow> bool" where
  "keep_mono n = startswith n ''mono''"

text \<open>
  The sequence of declarations that \<^verbatim>\<open>generate\<close> extracts, in the order in which it meets
  them, each with its name and the entry built for it at that moment.
\<close>

definition produced_decls ::
  "(string \<Rightarrow> bool) \<Rightarrow> FunctionDecl list \<Rightarrow> string set \<Rightarrow> (string \<times> (error + signature)) list" where
  "produced_decls keep ds enum_types =
     map (\<lambda>d. (name d, mapped d enum_types)) (filter (\<lambda>d. keep (name d)) ds)"

fun produced ::
  "(string \<Rightarrow> bool) \<Rightarrow> string list \<Rightarrow> string set \<Rightarrow> (string \<times> (error + signature)) list" where
  "produced keep [] enum_types = []"
| "produced keep (source # rest) enum_types =
     (let sanitized = strip_comments source;
          enum_types = enum_types \<union> collect_enum_types sanitized
      in produced_decls keep (parse_functions sanitized) enum_types
         @ produced keep rest enum_types)"

text \<open>
  An identifier in the sense of \<^verbatim>\<open>[A-Za-z_][A-Za-z0-9_]*\<close>, stated without the matcher.
\<close>

definition is_identifier :: "string \<Rightarrow> bool" where
  "is_identifier w = (w \<noteq> [] \<and> ident_start (hd w) \<and> list_all ident_char (tl w))"

text \<open>
  The name pattern matches at the start of a text: a first character of an identifier,
  then identifier characters up to the end or to a final newline.
\<close>

definition name_at :: "string \<Rightarrow> bool" where
  "name_at s = (s \<noteq> [] \<and> ident_start (hd s)
     \<and> (dropWhile ident_char (tl s) = [] \<or> dropWhile ident_char (tl s) = [CHR ''\<newline>'']))"

section \<open>Shapes of the comment patterns\<close>

text \<open>
  What the two comment patterns match, stated without the matcher. \<open>find_close\<close> is the
  offset of the first \<^verbatim>\<open>*/\<close> of a text; \<open>block_len\<close> is the length of the block comment
  that starts a text; \<open>line_match\<close> is the match of the line-comment pattern at the start
  of a text, with the offsets of its group.
\<close>

fun find_close :: "string \<Rightarrow> nat option" where
  "find_close [] = None"
| "find_close (c # cs) =
     (if c = CHR ''*'' \<and> cs \<noteq> [] \<and> hd cs = CHR ''/'' then Some 0
      else map_option Suc (find_close cs))"

fun block_len :: "string \<Rightarrow> nat option" where
  "block_len (a # b # rest) =
     (if a = CHR ''/'' \<and> b = CHR ''*'' then map_option (\<lambda>k. k + 4) (find_close rest)
      else None)"
| "block_len _ = None"

fun has_block :: "string \<Rightarrow> bool" where
  "has_block [] = False"
| "has_block (c # cs) = (block_len (c # cs) \<noteq> None \<or> has_block cs)"

fun starts_slashes :: "string \<Rightarrow> bool" where
  "starts_slashes (a # b # rest) = (a = CHR ''/'' \<and> b = CHR ''/'')"
| "starts_slashes _ = False"

definition bol :: "char option \<Rightarrow> bool" where
  "bol p = (p = None \<or> p = Some CHR ''\<newline>'')"

fun line_match :: "char option \<Rightarrow> string \<Rightarrow> (nat \<times> nat \<times> nat) option" where
  "line_match p [] = None"
| "line_match p (c # cs) =
     (if c \<noteq> CHR '':'' \<and> starts_slashes cs
      then Some (3 + length (takeWhile dot (tl (tl cs))), 0, 1)
      else if bol p \<and> starts_slashes (c # cs)
      then Some (2 + length (takeWhile dot (tl cs)), 0, 0)
      else None)"

fun has_line :: "char option \<Rightarrow> string \<Rightarrow> bool" where
  "has_line p [] = False"
| "has_line p (c # cs) = (line_match p (c # cs) \<noteq> None \<or> has_line (Some c) cs)"


section \<open>Properties of the type classifier\<close>


















lemma pointer_sized_names:
  "list_all (\<lambda>c. c \<notin> set (map fst NUMBER_TYPE_MAP) \<and> c \<notin> set (map fst GENERIC_INT_ALIASES)
      \<and> ((startswith c ''u'' \<or> startswith c ''gsize'') = (c = ''uintptr_t'' \<or> c = ''gsize'')))
     POINTER_SIZED_INTS"
  by code_simp

lemma pointer_sized_set:
  "set POINTER_SIZED_INTS =
     {''intptr_t'', ''uintptr_t'', ''ssize_t'', ''gssize'', ''gsize'', ''ptrdiff_t''}"
  unfolding POINTER_SIZED_INTS_def by (simp only: list.set)

lemma pointer_sized_rule_general:
  assumes "t \<noteq> []" "CHR ''*'' \<notin> set t" "\<not> endswith t '']''" "t \<notin> E"
    and m: "lower (remove_spaces t) \<in> set POINTER_SIZED_INTS"
  shows "map_native_type t E =
           (if lower (remove_spaces t) = ''uintptr_t'' \<or> lower (remove_spaces t) = ''gsize''
            then Inr ''size_t'' else Inr ''long'')"
proof -
  let ?c = "lower (remove_spaces t)"
  from m pointer_sized_names
  have k: "?c \<notin> set (map fst NUMBER_TYPE_MAP)" "?c \<notin> set (map fst GENERIC_INT_ALIASES)"
    "(startswith ?c ''u'' \<or> startswith ?c ''gsize'') = (?c = ''uintptr_t'' \<or> ?c = ''gsize'')"
    unfolding list_all_iff by blast+
  show ?thesis
    unfolding map_native_type_def Let_def
    using assms(1-4) m k by (simp only: if_False if_True simp_thms)
qed

text \<open>A name outside the set is left to the rules behind the pointer-sized one.\<close>

lemma pointer_sized_rule_others:
  assumes "t \<noteq> []" "CHR ''*'' \<notin> set t" "\<not> endswith t '']''" "t \<notin> E"
    "lower (remove_spaces t) \<notin> set (map fst NUMBER_TYPE_MAP)"
    "lower (remove_spaces t) \<notin> set (map fst GENERIC_INT_ALIASES)"
    and m: "lower (remove_spaces t) \<notin> set POINTER_SIZED_INTS"
  shows "map_native_type t E =
           (if endswith (lower (remove_spaces t)) ''_t''
               \<and> startswith (take (length (lower (remove_spaces t)) - 2)
                                 (lower (remove_spaces t))) ''u''
            then width_rule (lower (remove_spaces t)) ''uint64'' ''uint''
            else if endswith (lower (remove_spaces t)) ''_t''
            then width_rule (lower (remove_spaces t)) ''int64'' ''int''
            else Inr ''pointer'')"
  unfolding map_native_type_def Let_def
  using assms by (simp only: if_False simp_thms)

lemma uintptr_facts:
  "''uintptr_t'' \<noteq> [] \<and> CHR ''*'' \<notin> set ''uintptr_t'' \<and> \<not> endswith ''uintptr_t'' '']''
   \<and> lower (remove_spaces ''uintptr_t'') \<in> set POINTER_SIZED_INTS
   \<and> lower (remove_spaces ''uintptr_t'') = ''uintptr_t''"
  by code_simp

lemma ssize_facts:
  "''ssize_t'' \<noteq> [] \<and> CHR ''*'' \<notin> set ''ssize_t'' \<and> \<not> endswith ''ssize_t'' '']''
   \<and> lower (remove_spaces ''ssize_t'') \<in> set POINTER_SIZED_INTS
   \<and> lower (remove_spaces ''ssize_t'') \<noteq> ''uintptr_t''
   \<and> lower (remove_spaces ''ssize_t'') \<noteq> ''gsize''"
  by code_simp

text \<open>
  Claim C8, as the code has it. The pointer-sized rule applies exactly to six canonical
  names: \<^verbatim>\<open>intptr_t\<close>, \<^verbatim>\<open>uintptr_t\<close>, \<^verbatim>\<open>ssize_t\<close>, \<^verbatim>\<open>gssize\<close>, \<^verbatim>\<open>gsize\<close> and \<^verbatim>\<open>ptrdiff_t\<close>.
  Take a type that is not empty, not a pointer, not an array and not an enum type. When
  its canonical form is one of the six, it is \<^verbatim>\<open>size_t\<close> for \<^verbatim>\<open>uintptr_t\<close> and \<^verbatim>\<open>gsize\<close>, the
  two that start with \<^verbatim>\<open>u\<close> or \<^verbatim>\<open>gsize\<close>, and \<^verbatim>\<open>long\<close> for the four others. When its
  canonical form is none of the six and in neither table, the rule does not apply: the
  result is the one of the \<^verbatim>\<open>_t\<close> rules and the default behind it. So \<^verbatim>\<open>uintptr_t\<close> is
  \<^verbatim>\<open>size_t\<close> and \<^verbatim>\<open>ssize_t\<close> is \<^verbatim>\<open>long\<close>.
\<close>

theorem pointer_sized_rule:
  "set POINTER_SIZED_INTS =
     {''intptr_t'', ''uintptr_t'', ''ssize_t'', ''gssize'', ''gsize'', ''ptrdiff_t''}
   \<and> (t \<noteq> [] \<and> CHR ''*'' \<notin> set t \<and> \<not> endswith t '']'' \<and> t \<notin> E
        \<and> lower (remove_spaces t)
            \<in> {''intptr_t'', ''uintptr_t'', ''ssize_t'', ''gssize'', ''gsize'', ''ptrdiff_t''}
      \<longrightarrow> map_native_type t E =
            (if lower (remove_spaces t) = ''uintptr_t'' \<or> lower (remove_spaces t) = ''gsize''
             then Inr ''size_t'' else Inr ''long''))
   \<and> (t \<noteq> [] \<and> CHR ''*'' \<notin> set t \<and> \<not> endswith t '']'' \<and> t \<notin> E
        \<and> lower (remove_spaces t) \<notin> set (map fst NUMBER_TYPE_MAP)
        \<and> lower (remove_spaces t) \<notin> set (map fst GENERIC_INT_ALIASES)
        \<and> lower (remove_spaces t)
            \<notin> {''intptr_t'', ''uintptr_t'', ''ssize_t'', ''gssize'', ''gsize'', ''ptrdiff_t''}
      \<longrightarrow> map_native_type t E =
            (if endswith (lower (remove_spaces t)) ''_t''
                \<and> startswith (take (length (lower (remove_spaces t)) - 2)
                                  (lower (remove_spaces t))) ''u''
             then width_rule (lower (remove_spaces t)) ''uint64'' ''uint''
             else if endswith (lower (remove_spaces t)) ''_t''
             then width_rule (lower (remove_spaces t)) ''int64'' ''int''
             else Inr ''pointer''))
   \<and> (''uintptr_t'' \<notin> E \<longrightarrow> map_native_type ''uintptr_t'' E = Inr ''size_t'')
   \<and> (''ssize_t'' \<notin> E \<longrightarrow> map_native_type ''ssize_t'' E = Inr ''long'')"
proof (intro conjI impI)
  show "set POINTER_SIZED_INTS =
     {''intptr_t'', ''uintptr_t'', ''ssize_t'', ''gssize'', ''gsize'', ''ptrdiff_t''}"
    by (rule pointer_sized_set)
next
  assume "t \<noteq> [] \<and> CHR ''*'' \<notin> set t \<and> \<not> endswith t '']'' \<and> t \<notin> E
        \<and> lower (remove_spaces t)
            \<in> {''intptr_t'', ''uintptr_t'', ''ssize_t'', ''gssize'', ''gsize'', ''ptrdiff_t''}"
  then have "t \<noteq> []" "CHR ''*'' \<notin> set t" "\<not> endswith t '']''" "t \<notin> E"
    "lower (remove_spaces t) \<in> set POINTER_SIZED_INTS"
    unfolding pointer_sized_set by blast+
  then show "map_native_type t E =
            (if lower (remove_spaces t) = ''uintptr_t'' \<or> lower (remove_spaces t) = ''gsize''
             then Inr ''size_t'' else Inr ''long'')"
    by (rule pointer_sized_rule_general)
next
  assume "t \<noteq> [] \<and> CHR ''*'' \<notin> set t \<and> \<not> endswith t '']'' \<and> t \<notin> E
        \<and> lower (remove_spaces t) \<notin> set (map fst NUMBER_TYPE_MAP)
        \<and> lower (remove_spaces t) \<notin> set (map fst GENERIC_INT_ALIASES)
        \<and> lower (remove_spaces t)
            \<notin> {''intptr_t'', ''uintptr_t'', ''ssize_t'', ''gssize'', ''gsize'', ''ptrdiff_t''}"
  then have "t \<noteq> []" "CHR ''*'' \<notin> set t" "\<not> endswith t '']''" "t \<notin> E"
    "lower (remove_spaces t) \<notin> set (map fst NUMBER_TYPE_MAP)"
    "lower (remove_spaces t) \<notin> set (map fst GENERIC_INT_ALIASES)"
    "lower (remove_spaces t) \<notin> set POINTER_SIZED_INTS"
    unfolding pointer_sized_set by blast+
  then show "map_native_type t E =
            (if endswith (lower (remove_spaces t)) ''_t''
                \<and> startswith (take (length (lower (remove_spaces t)) - 2)
                                  (lower (remove_spaces t))) ''u''
             then width_rule (lower (remove_spaces t)) ''uint64'' ''uint''
             else if endswith (lower (remove_spaces t)) ''_t''
             then width_rule (lower (remove_spaces t)) ''int64'' ''int''
             else Inr ''pointer'')"
    by (rule pointer_sized_rule_others)
next
  assume "''uintptr_t'' \<notin> E"
  with uintptr_facts pointer_sized_rule_general [of "''uintptr_t''" E]
  have "map_native_type ''uintptr_t'' E =
     (if lower (remove_spaces ''uintptr_t'') = ''uintptr_t''
         \<or> lower (remove_spaces ''uintptr_t'') = ''gsize''
      then Inr ''size_t'' else Inr ''long'')"
    by blast
  with uintptr_facts show "map_native_type ''uintptr_t'' E = Inr ''size_t''"
    by (simp only: simp_thms if_True)
next
  assume "''ssize_t'' \<notin> E"
  with ssize_facts pointer_sized_rule_general [of "''ssize_t''" E]
  have "map_native_type ''ssize_t'' E =
     (if lower (remove_spaces ''ssize_t'') = ''uintptr_t''
         \<or> lower (remove_spaces ''ssize_t'') = ''gsize''
      then Inr ''size_t'' else Inr ''long'')"
    by blast
  with ssize_facts show "map_native_type ''ssize_t'' E = Inr ''long''"
    by (simp only: simp_thms if_False)
qed

theorem pointer_sized_rule_witness:
  "''gsize'' \<noteq> [] \<and> CHR ''*'' \<notin> set ''gsize'' \<and> \<not> endswith ''gsize'' '']''
   \<and> ''gsize'' \<notin> {''Color''}
   \<and> lower (remove_spaces ''gsize'')
       \<in> {''intptr_t'', ''uintptr_t'', ''ssize_t'', ''gssize'', ''gsize'', ''ptrdiff_t''}
   \<and> ''uintptr_t'' \<notin> {''Color''} \<and> ''ssize_t'' \<notin> {''Color''}
   \<and> map_native_type ''gsize'' {''Color''} = Inr ''size_t''
   \<and> map_native_type ''uintptr_t'' {''Color''} = Inr ''size_t''
   \<and> map_native_type ''ssize_t'' {''Color''} = Inr ''long''
   \<and> ''off_t'' \<noteq> [] \<and> CHR ''*'' \<notin> set ''off_t'' \<and> \<not> endswith ''off_t'' '']''
   \<and> ''off_t'' \<notin> {''Color''}
   \<and> lower (remove_spaces ''off_t'') \<notin> set (map fst NUMBER_TYPE_MAP)
   \<and> lower (remove_spaces ''off_t'') \<notin> set (map fst GENERIC_INT_ALIASES)
   \<and> lower (remove_spaces ''off_t'')
       \<notin> {''intptr_t'', ''uintptr_t'', ''ssize_t'', ''gssize'', ''gsize'', ''ptrdiff_t''}
   \<and> map_native_type ''off_t'' {''Color''} = Inr ''int''"
proof -
  have hg: "''gsize'' \<noteq> [] \<and> CHR ''*'' \<notin> set ''gsize'' \<and> \<not> endswith ''gsize'' '']''
     \<and> ''gsize'' \<notin> {''Color''}
     \<and> lower (remove_spaces ''gsize'')
         \<in> {''intptr_t'', ''uintptr_t'', ''ssize_t'', ''gssize'', ''gsize'', ''ptrdiff_t''}"
    by code_simp
  have cg: "lower (remove_spaces ''gsize'') = ''gsize''" by code_simp
  have hu: "''uintptr_t'' \<notin> {''Color''}" by code_simp
  have hs: "''ssize_t'' \<notin> {''Color''}" by code_simp
  have ho: "''off_t'' \<noteq> [] \<and> CHR ''*'' \<notin> set ''off_t'' \<and> \<not> endswith ''off_t'' '']''
     \<and> ''off_t'' \<notin> {''Color''}
     \<and> lower (remove_spaces ''off_t'') \<notin> set (map fst NUMBER_TYPE_MAP)
     \<and> lower (remove_spaces ''off_t'') \<notin> set (map fst GENERIC_INT_ALIASES)
     \<and> lower (remove_spaces ''off_t'')
         \<notin> {''intptr_t'', ''uintptr_t'', ''ssize_t'', ''gssize'', ''gsize'', ''ptrdiff_t''}"
    by code_simp
  have co: "(if endswith (lower (remove_spaces ''off_t'')) ''_t''
               \<and> startswith (take (length (lower (remove_spaces ''off_t'')) - 2)
                                 (lower (remove_spaces ''off_t''))) ''u''
       then width_rule (lower (remove_spaces ''off_t'')) ''uint64'' ''uint''
       else if endswith (lower (remove_spaces ''off_t'')) ''_t''
       then width_rule (lower (remove_spaces ''off_t'')) ''int64'' ''int''
       else Inr ''pointer'') = Inr ''int''"
    by code_simp
  note r = pointer_sized_rule [of "''gsize''" "{''Color''}"]
  note o = pointer_sized_rule [of "''off_t''" "{''Color''}"]
  from r [THEN conjunct2, THEN conjunct1, THEN mp, OF hg]
  have "map_native_type ''gsize'' {''Color''} =
     (if ''gsize'' = ''uintptr_t'' \<or> ''gsize'' = ''gsize''
      then Inr ''size_t'' else Inr ''long'')"
    unfolding cg .
  then have g: "map_native_type ''gsize'' {''Color''} = Inr ''size_t''"
    by (simp only: simp_thms if_True)
  from r [THEN conjunct2, THEN conjunct2, THEN conjunct2, THEN conjunct1, THEN mp, OF hu]
  have u: "map_native_type ''uintptr_t'' {''Color''} = Inr ''size_t''" .
  from r [THEN conjunct2, THEN conjunct2, THEN conjunct2, THEN conjunct2, THEN mp, OF hs]
  have s: "map_native_type ''ssize_t'' {''Color''} = Inr ''long''" .
  from o [THEN conjunct2, THEN conjunct2, THEN conjunct1, THEN mp, OF ho]
  have f: "map_native_type ''off_t'' {''Color''} = Inr ''int''"
    unfolding co .
  from hg hu hs g u s ho f show ?thesis by (simp only: simp_thms)
qed

text \<open>
  Claim C8 as stated names five members; the code's set has a sixth, \<^verbatim>\<open>ptrdiff_t\<close>, which
  the rule makes a \<^verbatim>\<open>long\<close> where the \<^verbatim>\<open>_t\<close> rule behind it would give \<^verbatim>\<open>int\<close>.
\<close>

theorem pointer_sized_rule_counterexample:
  "''ptrdiff_t'' \<in> set POINTER_SIZED_INTS
   \<and> ''ptrdiff_t'' \<notin> {''intptr_t'', ''uintptr_t'', ''ssize_t'', ''gssize'', ''gsize''}
   \<and> map_native_type ''ptrdiff_t'' {} = Inr ''long''
   \<and> width_rule ''ptrdiff_t'' ''int64'' ''int'' = Inr ''int''"
  by code_simp

text \<open>
  Claim C4. Whatever the enum types are, a type whose normalized form contains \<^verbatim>\<open>*\<close> or
  ends with \<^verbatim>\<open>]\<close> is a \<^verbatim>\<open>pointer\<close>; \<^verbatim>\<open>const enum Color *\<close> is one, also when \<^verbatim>\<open>Color\<close> is an
  enum type.
\<close>

theorem pointer_precedence:
  "(CHR ''*'' \<in> set (normalize_type t) \<or> endswith (normalize_type t) '']''
      \<longrightarrow> map_native_type (normalize_type t) E = Inr ''pointer'')
   \<and> map_native_type (normalize_type ''const enum Color *'') E = Inr ''pointer''"
proof -
  have p: "map_native_type x E = Inr ''pointer''"
    if "CHR ''*'' \<in> set x \<or> endswith x '']''" for x
  proof -
    from that have "x \<noteq> []" by (auto simp: endswith_def)
    with that show ?thesis by (simp add: map_native_type_def)
  qed
  have n: "normalize_type ''const enum Color *'' = ''Color*''" by code_simp
  have "map_native_type (normalize_type ''const enum Color *'') E = Inr ''pointer''"
    unfolding n by (rule p) simp
  with p show ?thesis by blast
qed

theorem pointer_precedence_witness:
  "endswith (normalize_type ''int[4]'') '']''
   \<and> map_native_type (normalize_type ''int[4]'') {''Color''} = Inr ''pointer''
   \<and> map_native_type (normalize_type ''const enum Color *'') {''Color''} = Inr ''pointer''"
proof -
  have h: "endswith (normalize_type ''int[4]'') '']''" by code_simp
  with pointer_precedence [of "''int[4]''" "{''Color''}"] show ?thesis by blast
qed

section \<open>Properties of the pipeline\<close>

lemma startswith_monoeg: "startswith s ''monoeg'' \<Longrightarrow> startswith s ''mono''"
proof -
  assume a: "startswith s ''monoeg''"
  have "take (length ''mono'') s = take (length ''mono'') (take (length ''monoeg'') s)"
    by (simp add: min_def)
  also have "\<dots> = take (length ''mono'') ''monoeg''"
    using a unfolding startswith_def by (rule arg_cong)
  also have "\<dots> = ''mono''" by simp
  finally show ?thesis unfolding startswith_def .
qed

lemma keep_decl_eq: "keep_decl = keep_mono"
  using startswith_monoeg by (auto simp: keep_decl_def keep_mono_def fun_eq_iff)

text \<open>
  Claim C10. A name that starts with \<^verbatim>\<open>monoeg\<close> starts with \<^verbatim>\<open>mono\<close>, so the test of
  \<^verbatim>\<open>generate\<close> on a name is the test for \<^verbatim>\<open>mono\<close> alone, and the registry is the same
  with the second disjunct removed.
\<close>

theorem namespace_filter_redundant:
  "(startswith s ''monoeg'' \<longrightarrow> startswith s ''mono'')
   \<and> keep_decl s = keep_mono s
   \<and> generate files = generate_with keep_mono files"
  using startswith_monoeg [of s] by (simp add: keep_decl_eq generate_def)

theorem namespace_filter_redundant_witness:
  "startswith ''monoeg_malloc'' ''monoeg'' \<and> startswith ''monoeg_malloc'' ''mono''
   \<and> keep_mono ''monoeg_malloc''
   \<and> generate [''MONO_API void* monoeg_malloc (int n);'']
       = generate_with keep_mono [''MONO_API void* monoeg_malloc (int n);'']"
proof -
  have a: "startswith ''monoeg_malloc'' ''monoeg''" by (simp add: startswith_def)
  from a namespace_filter_redundant
    [of "''monoeg_malloc''" "[''MONO_API void* monoeg_malloc (int n);'']"]
  show ?thesis by (simp add: keep_decl_def)
qed

text \<open>
  Claim C2. A single header that holds the line
  \<^verbatim>\<open>MONO_API int mono_foo (void* obj, const char* name);\<close> gives a registry of one entry,
  named \<^verbatim>\<open>mono_foo\<close>, with return type \<^verbatim>\<open>int\<close> and the argument types \<^verbatim>\<open>pointer\<close>,
  \<^verbatim>\<open>pointer\<close>, with or without a newline at the end of the line.
\<close>

theorem minimal_header_registry:
  "generate [''MONO_API int mono_foo (void* obj, const char* name);''] =
     Inr [(''mono_foo'',
           \<lparr>sig_name = ''mono_foo'', retType = ''int'',
            argTypes = [''pointer'', ''pointer'']\<rparr>)]
   \<and> generate [''MONO_API int mono_foo (void* obj, const char* name);\<newline>''] =
     Inr [(''mono_foo'',
           \<lparr>sig_name = ''mono_foo'', retType = ''int'',
            argTypes = [''pointer'', ''pointer'']\<rparr>)]"
  by code_simp

text \<open>
  Claim C1 does not hold of the code: \<^verbatim>\<open>generate\<close> classifies the declarations of a
  header with the enum types of the headers read so far. A function of the first header
  that returns an enum type defined in the second is a \<^verbatim>\<open>pointer\<close>; with the two headers
  in the other order, or in one header, it is an \<^verbatim>\<open>int\<close>.
\<close>

theorem enum_types_partial_across_files:
  "generate [''MONO_API Color mono_get_color (void);'', ''typedef enum { RED } Color;'']
     = Inr [(''mono_get_color'',
             \<lparr>sig_name = ''mono_get_color'', retType = ''pointer'', argTypes = []\<rparr>)]
   \<and> generate [''typedef enum { RED } Color;'', ''MONO_API Color mono_get_color (void);'']
     = Inr [(''mono_get_color'',
             \<lparr>sig_name = ''mono_get_color'', retType = ''int'', argTypes = []\<rparr>)]
   \<and> generate [''MONO_API Color mono_get_color (void);typedef enum { RED } Color;'']
     = Inr [(''mono_get_color'',
             \<lparr>sig_name = ''mono_get_color'', retType = ''int'', argTypes = []\<rparr>)]"
  by code_simp

section \<open>Properties of the registry\<close>

lemma map_of_setdefault: "map_of (setdefault fs k v) n = map_of (fs @ [(k, v)]) n"
  by (auto simp: setdefault_def map_add_def map_of_eq_None_iff [symmetric]
      simp del: map_of_eq_None_iff split: option.splits)

lemma keys_setdefault: "set (map fst (setdefault fs k v)) = insert k (set (map fst fs))"
  by (auto simp: setdefault_def)

lemma distinct_setdefault:
  "distinct (map fst fs) \<Longrightarrow> distinct (map fst (setdefault fs k v))"
  by (auto simp: setdefault_def)

text \<open>
  What the two iterations do to the dictionary, given the produced sequence: every element of
  the sequence is an entry, and the dictionary keeps for a name the first entry met.
\<close>

lemma decl_loop_produced:
  assumes "decl_loop keep ds E fs = Inr fs'"
  shows "\<exists>ps. produced_decls keep ds E = map (\<lambda>(n, v). (n, Inr v)) ps
           \<and> (\<forall>n. map_of fs' n = map_of (fs @ ps) n)
           \<and> set (map fst fs') = set (map fst fs) \<union> set (map fst ps)
           \<and> (distinct (map fst fs) \<longrightarrow> distinct (map fst fs'))"
  using assms
proof (induction ds arbitrary: fs)
  case Nil
  then show ?case by (auto simp: produced_decls_def intro: exI [of _ "[]"])
next
  case (Cons d ds)
  show ?case
  proof (cases "keep (name d)")
    case False
    with Cons.prems have "decl_loop keep ds E fs = Inr fs'" by simp
    from Cons.IH [OF this] False show ?thesis by (simp add: produced_decls_def)
  next
    case True
    with Cons.prems obtain m where m: "mapped d E = Inr m"
      and r: "decl_loop keep ds E (setdefault fs (name d) m) = Inr fs'"
      by (auto split: sum.splits)
    from Cons.IH [OF r] obtain ps where
      ps: "produced_decls keep ds E = map (\<lambda>(n, v). (n, Inr v)) ps"
      and mo: "\<forall>n. map_of fs' n = map_of (setdefault fs (name d) m @ ps) n"
      and ks: "set (map fst fs') = set (map fst (setdefault fs (name d) m)) \<union> set (map fst ps)"
      and di: "distinct (map fst (setdefault fs (name d) m)) \<longrightarrow> distinct (map fst fs')"
      by blast
    have 1: "produced_decls keep (d # ds) E = map (\<lambda>(n, v). (n, Inr v)) ((name d, m) # ps)"
      using True m ps by (simp add: produced_decls_def)
    have 2: "\<forall>n. map_of fs' n = map_of (fs @ (name d, m) # ps) n"
    proof
      fix n
      have "map_of fs' n = (map_of ps ++ map_of (setdefault fs (name d) m)) n"
        using mo by simp
      also have "\<dots> = (map_of ps ++ map_of (fs @ [(name d, m)])) n"
        by (simp add: map_add_def map_of_setdefault)
      also have "\<dots> = map_of (fs @ (name d, m) # ps) n"
        by (simp add: map_add_def split: option.splits)
      finally show "map_of fs' n = map_of (fs @ (name d, m) # ps) n" .
    qed
    have 3: "set (map fst fs') = set (map fst fs) \<union> set (map fst ((name d, m) # ps))"
      using ks keys_setdefault [of fs "name d" m] by auto
    have 4: "distinct (map fst fs) \<longrightarrow> distinct (map fst fs')"
      using di distinct_setdefault by blast
    from 1 2 3 4 show ?thesis by blast
  qed
qed

lemma header_loop_produced:
  assumes "header_loop keep files E fs = Inr fs'"
  shows "\<exists>ps. produced keep files E = map (\<lambda>(n, v). (n, Inr v)) ps
           \<and> (\<forall>n. map_of fs' n = map_of (fs @ ps) n)
           \<and> set (map fst fs') = set (map fst fs) \<union> set (map fst ps)
           \<and> (distinct (map fst fs) \<longrightarrow> distinct (map fst fs'))"
  using assms
proof (induction files arbitrary: E fs)
  case Nil
  then show ?case by (auto intro: exI [of _ "[]"])
next
  case (Cons src rest)
  let ?E = "E \<union> collect_enum_types (strip_comments src)"
  let ?ds = "parse_functions (strip_comments src)"
  from Cons.prems obtain f1 where d: "decl_loop keep ?ds ?E fs = Inr f1"
    and h: "header_loop keep rest ?E f1 = Inr fs'"
    by (auto simp: Let_def split: sum.splits)
  from decl_loop_produced [OF d] obtain p1 where
    p1: "produced_decls keep ?ds ?E = map (\<lambda>(n, v). (n, Inr v)) p1"
    and m1: "\<forall>n. map_of f1 n = map_of (fs @ p1) n"
    and k1: "set (map fst f1) = set (map fst fs) \<union> set (map fst p1)"
    and d1: "distinct (map fst fs) \<longrightarrow> distinct (map fst f1)"
    by blast
  from Cons.IH [OF h] obtain p2 where
    p2: "produced keep rest ?E = map (\<lambda>(n, v). (n, Inr v)) p2"
    and m2: "\<forall>n. map_of fs' n = map_of (f1 @ p2) n"
    and k2: "set (map fst fs') = set (map fst f1) \<union> set (map fst p2)"
    and d2: "distinct (map fst f1) \<longrightarrow> distinct (map fst fs')"
    by blast
  have 1: "produced keep (src # rest) E = map (\<lambda>(n, v). (n, Inr v)) (p1 @ p2)"
    using p1 p2 by (simp add: Let_def)
  have 2: "\<forall>n. map_of fs' n = map_of (fs @ p1 @ p2) n"
    using m1 m2 by (simp add: map_add_def split: option.splits)
  have 3: "set (map fst fs') = set (map fst fs) \<union> set (map fst (p1 @ p2))"
    using k1 k2 by auto
  from 1 2 3 d1 d2 show ?case by blast
qed

lemma entries_of_keys:
  "set ns \<subseteq> set (map fst fs) \<Longrightarrow>
     \<exists>r. entries_of fs ns = Inr r \<and> map fst r = ns \<and> (\<forall>(n, v) \<in> set r. map_of fs n = Some v)"
proof (induction ns)
  case Nil
  then show ?case by simp
next
  case (Cons n ns)
  then obtain r where r: "entries_of fs ns = Inr r" "map fst r = ns"
    "\<forall>(n, v) \<in> set r. map_of fs n = Some v" by auto
  from Cons.prems obtain v where v: "map_of fs n = Some v"
    by (metis list.set_intros(1) map_of_eq_None_iff not_None_eq set_map subsetD)
  with r show ?case by auto
qed

lemma map_of_entries:
  assumes "distinct (map fst r)" "\<forall>(n, v) \<in> set r. map_of fs n = Some v"
    "set (map fst r) = set (map fst fs)"
  shows "map_of r n = map_of fs n"
proof (cases "map_of r n")
  case None
  then have "n \<notin> fst ` set r" by (simp add: map_of_eq_None_iff)
  then have "n \<notin> fst ` set fs" using assms(3) by simp
  then have "map_of fs n = None" by (simp add: map_of_eq_None_iff)
  with None show ?thesis by simp
next
  case (Some v)
  then have "(n, v) \<in> set r" by (rule map_of_SomeD)
  with assms(2) Some show ?thesis by auto
qed

lemma generate_with_produced:
  assumes "generate_with keep files = Inr reg"
  shows "\<exists>ps. produced keep files {} = map (\<lambda>(n, v). (n, Inr v)) ps
           \<and> (\<forall>n. map_of reg n = map_of ps n)
           \<and> sorted (map fst reg) \<and> distinct (map fst reg)
           \<and> set (map fst reg) = set (map fst ps)"
proof -
  from assms obtain fs where h: "header_loop keep files {} [] = Inr fs"
    and e: "entries_of fs (sort (map fst fs)) = Inr reg"
    by (auto simp: generate_with_def split: sum.splits)
  from header_loop_produced [OF h] obtain ps where
    ps: "produced keep files {} = map (\<lambda>(n, v). (n, Inr v)) ps"
    and mo: "\<forall>n. map_of fs n = map_of ps n"
    and ks: "set (map fst fs) = set (map fst ps)"
    and di: "distinct (map fst fs)"
    by auto
  have "set (sort (map fst fs)) \<subseteq> set (map fst fs)" by simp
  from entries_of_keys [OF this] e
  have r: "map fst reg = sort (map fst fs)" "\<forall>(n, v) \<in> set reg. map_of fs n = Some v"
    by auto
  have s: "sorted (map fst reg)" and d: "distinct (map fst reg)"
    and k: "set (map fst reg) = set (map fst fs)"
    using r(1) di by simp_all
  have "\<forall>n. map_of reg n = map_of ps n"
    using map_of_entries [OF d r(2) k] mo by simp
  with ps s d k ks show ?thesis by blast
qed

lemma header_loop_returns:
  assumes "\<forall>(n, v) \<in> set (produced keep files E). \<exists>m. v = Inr m"
  shows "\<exists>fs'. header_loop keep files E fs = Inr fs'"
  using assms
proof (induction files arbitrary: E fs)
  case Nil
  then show ?case by simp
next
  case (Cons src rest)
  let ?E = "E \<union> collect_enum_types (strip_comments src)"
  have d: "\<exists>f1. decl_loop keep ds ?E f = Inr f1"
    if "\<forall>(n, v) \<in> set (produced_decls keep ds ?E). \<exists>m. v = Inr m" for ds f
    using that
  proof (induction ds arbitrary: f)
    case Nil
    then show ?case by simp
  next
    case (Cons a ds)
    then show ?case by (auto simp: produced_decls_def split: sum.splits)
  qed
  from Cons.prems have
    "\<forall>(n, v) \<in> set (produced_decls keep (parse_functions (strip_comments src)) ?E).
        \<exists>m. v = Inr m"
    and r: "\<forall>(n, v) \<in> set (produced keep rest ?E). \<exists>m. v = Inr m"
    by (auto simp: Let_def)
  from d [OF this(1)] obtain f1 where
    "decl_loop keep (parse_functions (strip_comments src)) ?E fs = Inr f1" by blast
  with Cons.IH [OF r, of f1] show ?case by (simp add: Let_def)
qed

lemma generate_with_returns:
  assumes "\<forall>(n, v) \<in> set (produced keep files {}). \<exists>m. v = Inr m"
  shows "\<exists>reg. generate_with keep files = Inr reg"
proof -
  from header_loop_returns [OF assms] obtain fs
    where h: "header_loop keep files {} [] = Inr fs" by blast
  have "set (sort (map fst fs)) \<subseteq> set (map fst fs)" by simp
  from entries_of_keys [OF this] obtain r where "entries_of fs (sort (map fst fs)) = Inr r"
    by blast
  with h show ?thesis by (simp add: generate_with_def)
qed

text \<open>
  Claim C5. The declarations extracted from all headers form a sequence of names with
  their entries. When none of them makes the classifier raise, \<^verbatim>\<open>generate\<close> returns a
  registry. In the registry it returns, the names are in strictly increasing
  lexicographic order, they are the names of the sequence, and the entry of a name is
  the entry of its first occurrence in the sequence, whatever follows it.
\<close>

theorem registry_first_occurrence_sorted:
  "((\<forall>(n, v) \<in> set (produced keep_decl files {}). \<exists>m. v = Inr m)
       \<longrightarrow> (\<exists>reg. generate files = Inr reg))
   \<and> (generate files = Inr reg \<longrightarrow>
        sorted (map fst reg) \<and> distinct (map fst reg)
        \<and> set (map fst reg) = set (map fst (produced keep_decl files {}))
        \<and> (\<forall>pre n v post.
              produced keep_decl files {} = pre @ (n, v) # post \<and> n \<notin> set (map fst pre)
              \<longrightarrow> v = Inr (the (map_of reg n)) \<and> (n, the (map_of reg n)) \<in> set reg))"
proof (intro conjI impI)
  assume "\<forall>(n, v) \<in> set (produced keep_decl files {}). \<exists>m. v = Inr m"
  then show "\<exists>reg. generate files = Inr reg"
    unfolding generate_def by (rule generate_with_returns)
next
  assume g: "generate files = Inr reg"
  then have "generate_with keep_decl files = Inr reg" by (simp add: generate_def)
  from generate_with_produced [OF this] obtain ps where
    ps: "produced keep_decl files {} = map (\<lambda>(n, v). (n, Inr v)) ps"
    and mo: "\<forall>n. map_of reg n = map_of ps n"
    and s: "sorted (map fst reg)" and d: "distinct (map fst reg)"
    and k: "set (map fst reg) = set (map fst ps)"
    by blast
  have fst_ps: "map fst (produced keep_decl files {}) = map fst ps"
    unfolding ps by (simp add: comp_def case_prod_beta)
  show "sorted (map fst reg)" by (rule s)
  show "distinct (map fst reg)" by (rule d)
  show "set (map fst reg) = set (map fst (produced keep_decl files {}))"
    using k fst_ps by simp
  show "\<forall>pre n v post.
          produced keep_decl files {} = pre @ (n, v) # post \<and> n \<notin> set (map fst pre)
          \<longrightarrow> v = Inr (the (map_of reg n)) \<and> (n, the (map_of reg n)) \<in> set reg"
  proof (intro allI impI)
    fix pre n v post
    assume a: "produced keep_decl files {} = pre @ (n, v) # post \<and> n \<notin> set (map fst pre)"
    then have "map_of pre n = None" by (simp add: map_of_eq_None_iff)
    with a have "map_of (produced keep_decl files {}) n = Some v"
      by (simp add: map_add_def)
    moreover have "map_of (map (\<lambda>(n, v). (n, Inr v)) ps) n = map_option Inr (map_of ps n)"
      by (induction ps) auto
    ultimately have "map_option Inr (map_of ps n) = Some v" using ps by metis
    then obtain m where m: "map_of ps n = Some m" "v = Inr m" by auto
    with mo have r: "map_of reg n = Some m" by simp
    then have "(n, m) \<in> set reg" by (rule map_of_SomeD)
    with r m show "v = Inr (the (map_of reg n)) \<and> (n, the (map_of reg n)) \<in> set reg"
      by simp
  qed
qed

theorem registry_first_occurrence_sorted_witness:
  "produced keep_decl
     [''MONO_API int mono_b (void);MONO_API void mono_a (int x);'',
      ''MONO_API long mono_b (int y);''] {}
     = [(''mono_b'', Inr \<lparr>sig_name = ''mono_b'', retType = ''int'', argTypes = []\<rparr>),
        (''mono_a'', Inr \<lparr>sig_name = ''mono_a'', retType = ''void'', argTypes = [''int'']\<rparr>),
        (''mono_b'', Inr \<lparr>sig_name = ''mono_b'', retType = ''long'', argTypes = [''int'']\<rparr>)]
   \<and> generate
     [''MONO_API int mono_b (void);MONO_API void mono_a (int x);'',
      ''MONO_API long mono_b (int y);'']
     = Inr [(''mono_a'', \<lparr>sig_name = ''mono_a'', retType = ''void'', argTypes = [''int'']\<rparr>),
            (''mono_b'', \<lparr>sig_name = ''mono_b'', retType = ''int'', argTypes = []\<rparr>)]
   \<and> sorted [''mono_a'', ''mono_b'']
   \<and> (''mono_b'', \<lparr>sig_name = ''mono_b'', retType = ''int'', argTypes = []\<rparr>)
       \<in> set [(''mono_a'', \<lparr>sig_name = ''mono_a'', retType = ''void'', argTypes = [''int'']\<rparr>),
               (''mono_b'', \<lparr>sig_name = ''mono_b'', retType = ''int'', argTypes = []\<rparr>)]"
proof -
  let ?F = "[''MONO_API int mono_b (void);MONO_API void mono_a (int x);'',
             ''MONO_API long mono_b (int y);'']"
  let ?b = "\<lparr>sig_name = ''mono_b'', retType = ''int'', argTypes = []\<rparr>"
  let ?a = "\<lparr>sig_name = ''mono_a'', retType = ''void'', argTypes = [''int'']\<rparr>"
  let ?b2 = "\<lparr>sig_name = ''mono_b'', retType = ''long'', argTypes = [''int'']\<rparr>"
  let ?R = "[(''mono_a'', ?a), (''mono_b'', ?b)]"
  have p: "produced keep_decl ?F {}
            = [(''mono_b'', Inr ?b), (''mono_a'', Inr ?a), (''mono_b'', Inr ?b2)]"
    by code_simp
  have all: "\<forall>(n, v) \<in> set (produced keep_decl ?F {}). \<exists>m. v = Inr m"
    unfolding p by simp
  have g: "generate ?F = Inr ?R" by code_simp
  note t = registry_first_occurrence_sorted [of ?F ?R]
  from t all have "\<exists>reg. generate ?F = Inr reg" by blast
  from t g have s: "sorted (map fst ?R)" by blast
  from t g have
    "\<forall>pre n v post. produced keep_decl ?F {} = pre @ (n, v) # post \<and> n \<notin> set (map fst pre)
       \<longrightarrow> v = Inr (the (map_of ?R n)) \<and> (n, the (map_of ?R n)) \<in> set ?R"
    by blast
  from this [rule_format, of "[]" "''mono_b''" "Inr ?b" "[(''mono_a'', Inr ?a), (''mono_b'', Inr ?b2)]"]
  have "(''mono_b'', the (map_of ?R ''mono_b'')) \<in> set ?R" using p by simp
  then have m: "(''mono_b'', ?b) \<in> set ?R" by simp
  from s have s': "sorted [''mono_a'', ''mono_b'']" by simp
  from p g s' m show ?thesis by blast
qed

section \<open>Properties of the parameter list\<close>

lemma pointer_spacing_empty: "re_sub POINTER_SPACING_RE (Const ''*'') [] = []"
  by code_simp

lemma param_type_dropped:
  assumes "strip f = [] \<or> strip f = ''void'' \<or> normalize_param (strip f) = []
           \<or> normalize_param (strip f) = ''...''"
  shows "param_type f = None"
proof -
  have e: "strip [] = []" by (simp add: strip_def)
  show ?thesis
    using assms unfolding param_type_def Let_def
    by (auto simp: e pointer_spacing_empty)
qed

lemma map_filter_append: "List.map_filter f (xs @ ys) = List.map_filter f xs @ List.map_filter f ys"
  by (simp add: List.map_filter_def)

text \<open>
  Claim C9, as the code has it. The parameter texts \<^verbatim>\<open>void\<close> and the empty text give no
  parameters. A fragment between top-level commas appends nothing when, trimmed, it is
  empty or \<^verbatim>\<open>void\<close>, or when its normalized form is empty or \<^verbatim>\<open>...\<close>; the result is then
  the one of the other fragments, so the parameters before a variadic marker are kept.
\<close>

theorem parse_parameters_dropped_fragments:
  "parse_parameters ''void'' = [] \<and> parse_parameters [] = []
   \<and> (split_params text 0 [] = xs @ f # ys
        \<and> (strip f = [] \<or> strip f = ''void'' \<or> normalize_param (strip f) = []
            \<or> normalize_param (strip f) = ''...'')
      \<longrightarrow> param_type f = None
          \<and> parse_parameters text = List.map_filter param_type (xs @ ys))
   \<and> parse_parameters ''int a, char b, ...'' = [''int'', ''char'']"
proof (intro conjI impI)
  show "parse_parameters ''void'' = []" by (simp add: parse_parameters_def)
  show "parse_parameters [] = []" by (simp add: parse_parameters_def)
  show "parse_parameters ''int a, char b, ...'' = [''int'', ''char'']" by code_simp
next
  assume a: "split_params text 0 [] = xs @ f # ys
        \<and> (strip f = [] \<or> strip f = ''void'' \<or> normalize_param (strip f) = []
            \<or> normalize_param (strip f) = ''...'')"
  then have n: "param_type f = None" using param_type_dropped by blast
  then show "param_type f = None" .
  have m: "List.map_filter param_type (xs @ f # ys) = List.map_filter param_type (xs @ ys)"
    using n by (simp add: List.map_filter_def)
  show "parse_parameters text = List.map_filter param_type (xs @ ys)"
  proof (cases "text = [] \<or> text = ''void''")
    case False
    then show ?thesis using a m by (simp add: parse_parameters_def)
  next
    case True
    then show ?thesis
    proof
      assume "text = []"
      with a show ?thesis by simp
    next
      assume t: "text = ''void''"
      have "split_params ''void'' 0 [] = [''void'']" by code_simp
      with a t have "xs @ f # ys = [''void'']" by simp
      then have "xs = [] \<and> ys = []" by (cases xs) auto
      with t show ?thesis by (simp add: parse_parameters_def List.map_filter_def)
    qed
  qed
qed

theorem parse_parameters_dropped_fragments_witness:
  "split_params ''int a, ...'' 0 [] = [''int a''] @ '' ...'' # []
   \<and> normalize_param (strip '' ...'') = ''...''
   \<and> param_type '' ...'' = None
   \<and> parse_parameters ''int a, ...'' = List.map_filter param_type ([''int a''] @ [])
   \<and> List.map_filter param_type [''int a''] = [''int'']"
proof -
  have s: "split_params ''int a, ...'' 0 [] = [''int a''] @ '' ...'' # []" by code_simp
  have n: "normalize_param (strip '' ...'') = ''...''" by code_simp
  have k: "List.map_filter param_type [''int a''] = [''int'']" by code_simp
  from parse_parameters_dropped_fragments [of "''int a, ...''" "[''int a'']" "'' ...''" "[]"] s n
  have "param_type '' ...'' = None
        \<and> parse_parameters ''int a, ...'' = List.map_filter param_type ([''int a''] @ [])"
    by blast
  with s n k show ?thesis by blast
qed

text \<open>
  Claim C9 as stated fails for \<^verbatim>\<open>void\<close>: the test for \<^verbatim>\<open>void\<close> is made on the trimmed
  fragment, before the qualifiers are removed, so the fragment \<^verbatim>\<open>const void\<close>, which
  normalizes to \<^verbatim>\<open>void\<close>, appends the type \<^verbatim>\<open>void\<close>.
\<close>

theorem parse_parameters_void_counterexample:
  "split_params ''int a,const void'' 0 [] = [''int a'', ''const void'']
   \<and> normalize_param (strip ''const void'') = ''void''
   \<and> param_type ''const void'' = Some ''void''
   \<and> parse_parameters ''int a,const void'' = [''int'', ''void'']"
  by code_simp

section \<open>Properties of the declaration parser\<close>

lemma ident_char_newline: "\<not> ident_char CHR ''\<newline>''"
  by code_simp

lemma ident_char_not_space: "ident_char c \<Longrightarrow> \<not> isspace c"
  by (auto simp: ident_char_def isspace_def is_upper_az_def is_lower_az_def is_decimal_def
      code_def Let_def)

lemma ident_start_not_space: "ident_start c \<Longrightarrow> \<not> isspace c"
  by (auto simp: ident_start_def isspace_def is_upper_az_def is_lower_az_def
      code_def Let_def)

text \<open>The tail \<^verbatim>\<open>[A-Za-z0-9_]*)$\<close> of the name pattern, at any point of a match.\<close>

lemma rmatch_name_tail:
  "rmatch [A (Star ident_char), A GClose, A EndS] p s n g =
     (if dropWhile ident_char s = [] \<or> dropWhile ident_char s = [CHR ''\<newline>'']
      then Some (n + length (takeWhile ident_char s), fst g, n + length (takeWhile ident_char s))
      else None)"
proof (induction s arbitrary: p n)
  case Nil
  then show ?case by simp
next
  case (Cons c cs)
  show ?case
  proof (cases "ident_char c")
    case True
    then have "c \<noteq> CHR ''\<newline>''" using ident_char_newline by auto
    with True show ?thesis by (simp add: Cons.IH)
  next
    case False
    then show ?thesis by (simp add: ident_char_newline)
  qed
qed

lemma rmatch_NAME_RE:
  "rmatch NAME_RE p s 0 (0, 0) =
     (if name_at s then Some (Suc (length (takeWhile ident_char (tl s))), 0,
                              Suc (length (takeWhile ident_char (tl s))))
      else None)"
  by (cases s) (simp_all add: NAME_RE_def name_at_def rmatch_name_tail)

lemma re_search_from_NAME_RE_None:
  "re_search_from NAME_RE p s i = None \<longleftrightarrow> (\<forall>j \<le> length s. \<not> name_at (drop j s))"
proof (induction s arbitrary: p i)
  case Nil
  then show ?case by (simp add: rmatch_NAME_RE name_at_def)
next
  case (Cons c cs)
  have "(\<forall>j \<le> length (c # cs). \<not> name_at (drop j (c # cs)))
        \<longleftrightarrow> (\<not> name_at (c # cs) \<and> (\<forall>j \<le> length cs. \<not> name_at (drop j cs)))"
  proof
    assume a: "\<forall>j \<le> length (c # cs). \<not> name_at (drop j (c # cs))"
    from a [rule_format, of 0] have "\<not> name_at (c # cs)" by simp
    moreover have "\<not> name_at (drop j cs)" if "j \<le> length cs" for j
      using a [rule_format, of "Suc j"] that by simp
    ultimately show "\<not> name_at (c # cs) \<and> (\<forall>j \<le> length cs. \<not> name_at (drop j cs))"
      by blast
  next
    assume a: "\<not> name_at (c # cs) \<and> (\<forall>j \<le> length cs. \<not> name_at (drop j cs))"
    show "\<forall>j \<le> length (c # cs). \<not> name_at (drop j (c # cs))"
    proof (intro allI impI)
      fix j assume "j \<le> length (c # cs)"
      then show "\<not> name_at (drop j (c # cs))" using a by (cases j) auto
    qed
  qed
  then show ?case by (simp add: rmatch_NAME_RE Cons.IH)
qed

lemma re_search_from_NAME_RE_Some:
  "re_search_from NAME_RE p s i = Some (start, n, gs, ge) \<Longrightarrow>
     i \<le> start \<and> start - i < length s \<and> name_at (drop (start - i) s)
     \<and> (\<forall>j < start - i. \<not> name_at (drop j s))
     \<and> gs = 0 \<and> ge = n
     \<and> n = Suc (length (takeWhile ident_char (tl (drop (start - i) s))))"
proof (induction s arbitrary: p i)
  case Nil
  then show ?case by (simp add: rmatch_NAME_RE name_at_def)
next
  case (Cons c cs)
  show ?case
  proof (cases "name_at (c # cs)")
    case True
    with Cons.prems show ?thesis by (simp add: rmatch_NAME_RE)
  next
    case False
    with Cons.prems have r: "re_search_from NAME_RE (Some c) cs (Suc i) = Some (start, n, gs, ge)"
      by (simp add: rmatch_NAME_RE)
    from Cons.IH [OF r] have ih: "Suc i \<le> start" "start - Suc i < length cs"
      "name_at (drop (start - Suc i) cs)" "\<forall>j < start - Suc i. \<not> name_at (drop j cs)"
      "gs = 0" "ge = n"
      "n = Suc (length (takeWhile ident_char (tl (drop (start - Suc i) cs))))"
      by blast+
    from ih(1) have e: "start - i = Suc (start - Suc i)" by simp
    have "\<not> name_at (drop j (c # cs))" if "j < start - i" for j
    proof (cases j)
      case 0
      with False show ?thesis by simp
    next
      case (Suc k)
      with that e have "k < start - Suc i" by simp
      with ih(4) Suc show ?thesis by simp
    qed
    with ih e show ?thesis by simp
  qed
qed

lemma strip_last: "strip x = [] \<or> \<not> isspace (last (strip x))"
proof (cases "strip x = []")
  case True
  then show ?thesis by simp
next
  case False
  let ?z = "dropWhile isspace (rev (dropWhile isspace x))"
  from False have z: "?z \<noteq> []" by (simp add: strip_def)
  then have "\<not> isspace (hd ?z)" by (rule hd_dropWhile)
  moreover have "last (strip x) = hd ?z" using z by (simp add: strip_def last_rev)
  ultimately show ?thesis by simp
qed

text \<open>
  In a text that does not end with white space, the pattern matches at a position
  exactly when the rest of the text from there is an identifier.
\<close>

lemma name_at_identifier:
  assumes "s = [] \<or> \<not> isspace (last s)"
  shows "name_at (drop j s) \<longleftrightarrow> is_identifier (drop j s)"
proof (cases "drop j s")
  case Nil
  then show ?thesis by (simp add: name_at_def is_identifier_def)
next
  case (Cons c w)
  then have ne: "s \<noteq> []" by auto
  have l: "last (c # w) = last s" using Cons by (metis last_drop drop_eq_Nil not_le list.distinct(1))
  have nl: "dropWhile ident_char w \<noteq> [CHR ''\<newline>'']"
  proof
    assume d: "dropWhile ident_char w = [CHR ''\<newline>'']"
    then have "w \<noteq> []" by auto
    have "w = takeWhile ident_char w @ [CHR ''\<newline>'']"
      using d takeWhile_dropWhile_id [of ident_char w] by simp
    then have "last w = CHR ''\<newline>''" by (metis last_snoc)
    with \<open>w \<noteq> []\<close> l have "last s = CHR ''\<newline>''" by simp
    moreover have "isspace CHR ''\<newline>''" by code_simp
    ultimately show False using assms ne by simp
  qed
  have "dropWhile ident_char w = [] \<longleftrightarrow> list_all ident_char w"
    by (simp add: dropWhile_eq_Nil_conv list_all_iff)
  with nl Cons show ?thesis by (simp add: name_at_def is_identifier_def)
qed

lemma identifier_length:
  "is_identifier w \<Longrightarrow> Suc (length (takeWhile ident_char (tl w))) = length w"
proof -
  assume a: "is_identifier w"
  then obtain c v where w: "w = c # v" by (cases w) (auto simp: is_identifier_def)
  with a have "\<forall>x \<in> set v. ident_char x" by (simp add: is_identifier_def list_all_iff)
  then have "takeWhile ident_char v = v" by (rule takeWhile_eq_all_conv [THEN iffD2])
  then have "length (takeWhile ident_char v) = length v" by (rule arg_cong)
  with w show ?thesis by simp
qed

text \<open>The search for the name in a trimmed text, stated without the matcher.\<close>

lemma re_search_name:
  assumes "s = [] \<or> \<not> isspace (last s)"
  shows "(re_search NAME_RE s = None \<longleftrightarrow> (\<forall>j. \<not> is_identifier (drop j s)))
       \<and> (\<forall>start n gs ge. re_search NAME_RE s = Some (start, n, gs, ge) \<longrightarrow>
            is_identifier (drop start s) \<and> (\<forall>j < start. \<not> is_identifier (drop j s))
            \<and> gs = 0 \<and> ge = n \<and> n = length (drop start s))"
proof -
  have "re_search NAME_RE s = None \<longleftrightarrow> (\<forall>j \<le> length s. \<not> is_identifier (drop j s))"
    unfolding re_search_def re_search_from_NAME_RE_None
    using name_at_identifier [OF assms] by simp
  moreover have "\<not> is_identifier (drop j s)" if "\<not> j \<le> length s" for j
    using that by (simp add: is_identifier_def)
  ultimately have 1: "re_search NAME_RE s = None \<longleftrightarrow> (\<forall>j. \<not> is_identifier (drop j s))"
    by blast
  have 2: "is_identifier (drop start s) \<and> (\<forall>j < start. \<not> is_identifier (drop j s))
            \<and> gs = 0 \<and> ge = n \<and> n = length (drop start s)"
    if "re_search NAME_RE s = Some (start, n, gs, ge)" for start n gs ge
  proof -
    from that have r: "re_search_from NAME_RE None s 0 = Some (start, n, gs, ge)"
      by (simp add: re_search_def)
    from re_search_from_NAME_RE_Some [OF r]
    have f: "name_at (drop start s)" "\<forall>j < start. \<not> name_at (drop j s)" "gs = 0" "ge = n"
      "n = Suc (length (takeWhile ident_char (tl (drop start s))))"
      by simp_all
    from f(1) have i: "is_identifier (drop start s)"
      using name_at_identifier [OF assms] by simp
    show ?thesis
      using i f(2-5) name_at_identifier [OF assms] identifier_length [OF i] by simp
  qed
  from 1 2 show ?thesis by blast
qed

text \<open>
  Claim C7. Let \<open>text\<close> be the normalized declaration and \<open>before\<close> the trimmed text
  before its first \<^verbatim>\<open>(\<close>. \<^verbatim>\<open>parse_function_declaration\<close> returns \<^verbatim>\<open>None\<close> exactly when \<open>text\<close>
  has no \<^verbatim>\<open>(\<close> or no \<^verbatim>\<open>)\<close>, or no suffix of \<open>before\<close> is an identifier, or the text before
  the longest identifier that ends \<open>before\<close> is empty once trimmed. In every other case it
  returns a declaration whose name is that identifier and whose return type is that
  trimmed text, which is not empty.
\<close>

theorem parse_function_declaration_none_iff:
  "(let text = normalize_declaration d;
        before = strip (takeWhile (\<lambda>c. c \<noteq> CHR ''('') text)
    in (parse_function_declaration d = None \<longleftrightarrow>
          CHR ''('' \<notin> set text \<or> CHR '')'' \<notin> set text
          \<or> (\<forall>i. \<not> is_identifier (drop i before))
          \<or> (\<exists>i. is_identifier (drop i before) \<and> (\<forall>j < i. \<not> is_identifier (drop j before))
                 \<and> strip (take i before) = []))
     \<and> (\<forall>decl. parse_function_declaration d = Some decl \<longrightarrow>
            is_identifier (name decl) \<and> return_type decl \<noteq> []
            \<and> (\<exists>i. name decl = drop i before \<and> return_type decl = strip (take i before))))"
proof -
  let ?t = "normalize_declaration d"
  let ?b = "strip (takeWhile (\<lambda>c. c \<noteq> CHR ''('') ?t)"
  let ?none = "CHR ''('' \<notin> set ?t \<or> CHR '')'' \<notin> set ?t
          \<or> (\<forall>i. \<not> is_identifier (drop i ?b))
          \<or> (\<exists>i. is_identifier (drop i ?b) \<and> (\<forall>j < i. \<not> is_identifier (drop j ?b))
                 \<and> strip (take i ?b) = [])"
  let ?some = "\<forall>decl. parse_function_declaration d = Some decl \<longrightarrow>
            is_identifier (name decl) \<and> return_type decl \<noteq> []
            \<and> (\<exists>i. name decl = drop i ?b \<and> return_type decl = strip (take i ?b))"
  have sb: "?b = [] \<or> \<not> isspace (last ?b)" by (rule strip_last)
  note rs = re_search_name [OF sb]
  have "(parse_function_declaration d = None \<longleftrightarrow> ?none) \<and> ?some"
  proof (cases "CHR ''('' \<notin> set ?t \<or> CHR '')'' \<notin> set ?t")
    case True
    then have n: "parse_function_declaration d = None"
      by (auto simp: parse_function_declaration_def Let_def)
    then have 2: ?some by simp
    from n True have "parse_function_declaration d = None \<longleftrightarrow> ?none" by blast
    with 2 show ?thesis by blast
  next
    case parens: False
    show ?thesis
    proof (cases "re_search NAME_RE ?b")
      case None
      with parens have n: "parse_function_declaration d = None"
        by (simp add: parse_function_declaration_def Let_def)
      then have 2: ?some by simp
      from None rs have "\<forall>i. \<not> is_identifier (drop i ?b)" by blast
      with n have "parse_function_declaration d = None \<longleftrightarrow> ?none" by blast
      with 2 show ?thesis by blast
    next
      case (Some m)
      obtain start n gs ge where m: "m = (start, n, gs, ge)" by (cases m) auto
      with Some have r: "re_search NAME_RE ?b = Some (start, n, gs, ge)" by simp
      with rs have id: "is_identifier (drop start ?b)"
        and least: "\<forall>j < start. \<not> is_identifier (drop j ?b)"
        and g: "gs = 0" "ge = n" "n = length (drop start ?b)"
        by blast+
      have nm: "take (ge - gs) (drop (start + gs) ?b) = drop start ?b"
        using g by simp
      have p: "parse_function_declaration d =
          (if strip (take start ?b) = [] then None
           else Some \<lparr>name = drop start ?b, return_type = strip (take start ?b),
                      parameters = parse_parameters
                        (strip (rsplit_head (tl (dropWhile (\<lambda>c. c \<noteq> CHR ''('') ?t))))\<rparr>)"
        using parens r nm by (simp add: parse_function_declaration_def Let_def)
      have uniq: "i = start"
        if "is_identifier (drop i ?b)" "\<forall>j < i. \<not> is_identifier (drop j ?b)" for i
        using that id least by (meson linorder_neqE_nat)
      have 1: "parse_function_declaration d = None \<longleftrightarrow> ?none"
      proof
        assume "parse_function_declaration d = None"
        with p have "strip (take start ?b) = []" by (simp split: if_splits)
        with id least show ?none by blast
      next
        assume ?none
        with parens id have "\<exists>i. is_identifier (drop i ?b)
            \<and> (\<forall>j < i. \<not> is_identifier (drop j ?b)) \<and> strip (take i ?b) = []"
          by blast
        then obtain i where "is_identifier (drop i ?b)" "\<forall>j < i. \<not> is_identifier (drop j ?b)"
          "strip (take i ?b) = []" by blast
        with uniq have "strip (take start ?b) = []" by blast
        with p show "parse_function_declaration d = None" by simp
      qed
      have 2: ?some
      proof (intro allI impI)
        fix decl assume "parse_function_declaration d = Some decl"
        with p have "strip (take start ?b) \<noteq> []"
          and "name decl = drop start ?b" and "return_type decl = strip (take start ?b)"
          by (auto split: if_splits)
        with id show "is_identifier (name decl) \<and> return_type decl \<noteq> []
            \<and> (\<exists>i. name decl = drop i ?b \<and> return_type decl = strip (take i ?b))"
          by auto
      qed
      from 1 2 show ?thesis by blast
    qed
  qed
  then show ?thesis unfolding Let_def .
qed

theorem parse_function_declaration_none_iff_witness:
  "parse_function_declaration ''int mono_foo (void* obj, const char* name)''
     = Some \<lparr>name = ''mono_foo'', return_type = ''int'',
             parameters = [''void*obj'', ''char*name'']\<rparr>
   \<and> is_identifier ''mono_foo''
   \<and> parse_function_declaration ''mono_foo (void)'' = None
   \<and> parse_function_declaration ''int mono_foo'' = None
   \<and> parse_function_declaration ''int 9 (void)'' = None"
proof -
  let ?d = "''int mono_foo (void* obj, const char* name)''"
  let ?decl = "\<lparr>name = ''mono_foo'', return_type = ''int'',
                parameters = [''void*obj'', ''char*name'']\<rparr>"
  have p: "parse_function_declaration ?d = Some ?decl" by code_simp
  from parse_function_declaration_none_iff [of ?d]
  have "\<forall>decl. parse_function_declaration ?d = Some decl \<longrightarrow> is_identifier (name decl)"
    unfolding Let_def by blast
  with p have "is_identifier (name ?decl)" by blast
  then have i: "is_identifier ''mono_foo''" by simp
  have n: "parse_function_declaration ''mono_foo (void)'' = None
     \<and> parse_function_declaration ''int mono_foo'' = None
     \<and> parse_function_declaration ''int 9 (void)'' = None"
    by code_simp
  from p i n show ?thesis by blast
qed

section \<open>Properties of the comment normalizer\<close>

subsection \<open>Block comments\<close>

lemma rmatch_close:
  "rmatch [A (Lazy any_char), A (Cls (\<lambda>c. c = CHR ''*'')), A (Cls (\<lambda>c. c = CHR ''/''))] p s n g
     = map_option (\<lambda>k. (n + k + 2, g)) (find_close s)"
proof (induction s arbitrary: p n)
  case Nil
  then show ?case by simp
next
  case (Cons c cs)
  show ?case
  proof (cases "c = CHR ''*'' \<and> cs \<noteq> [] \<and> hd cs = CHR ''/''")
    case True
    then obtain e es where "cs = e # es" by (cases cs) auto
    with True show ?thesis by simp
  next
    case False
    then have "rmatch [A (Cls (\<lambda>c. c = CHR ''*'')), A (Cls (\<lambda>c. c = CHR ''/''))] p (c # cs) n g
                 = None"
      by (cases cs) auto
    moreover have "any_char c" by (simp add: any_char_def)
    ultimately show ?thesis
      using False by (simp add: Cons.IH option.map_comp comp_def)
  qed
qed

lemma rmatch_COMMENT_BLOCK_RE:
  "rmatch COMMENT_BLOCK_RE p s 0 (0, 0) = map_option (\<lambda>n. (n, 0, 0)) (block_len s)"
proof (cases s)
  case Nil
  then show ?thesis by (simp add: COMMENT_BLOCK_RE_def lit_def)
next
  case (Cons a t)
  show ?thesis
  proof (cases t)
    case Nil
    with Cons show ?thesis by (simp add: COMMENT_BLOCK_RE_def lit_def)
  next
    case (Cons b rest)
    with \<open>s = a # t\<close> show ?thesis
      by (simp add: COMMENT_BLOCK_RE_def lit_def rmatch_close option.map_comp comp_def
          eval_nat_numeral)
  qed
qed

lemma find_close_bound: "find_close s = Some k \<Longrightarrow> k + 2 \<le> length s"
proof (induction s arbitrary: k)
  case Nil
  then show ?case by simp
next
  case (Cons c cs)
  then show ?case by (cases cs) (auto split: if_splits)
qed

lemma block_len_bounds: "block_len s = Some n \<Longrightarrow> 4 \<le> n \<and> n \<le> length s"
proof (cases s)
  case Nil
  then show "block_len s = Some n \<Longrightarrow> ?thesis" by simp
next
  case (Cons a t)
  then show "block_len s = Some n \<Longrightarrow> ?thesis"
    by (cases t) (auto split: if_splits dest: find_close_bound)
qed

lemma block_len_other: "a \<noteq> CHR ''/'' \<Longrightarrow> block_len (a # x) = None"
  by (cases x) auto

lemma find_close_Cons: "find_close cs \<noteq> None \<Longrightarrow> find_close (c # cs) \<noteq> None"
  by auto

lemma find_close_drop: "find_close (drop i s) \<noteq> None \<Longrightarrow> find_close s \<noteq> None"
proof (induction s arbitrary: i)
  case Nil
  then show ?case by simp
next
  case (Cons c cs)
  show ?case
  proof (cases i)
    case 0
    with Cons.prems show ?thesis by simp
  next
    case (Suc j)
    with Cons.prems have "find_close (drop j cs) \<noteq> None" by simp
    then have "find_close cs \<noteq> None" by (rule Cons.IH)
    then show ?thesis by (rule find_close_Cons)
  qed
qed

lemma block_len_find_close: "block_len s \<noteq> None \<Longrightarrow> find_close s \<noteq> None"
proof (cases s)
  case Nil
  then show "block_len s \<noteq> None \<Longrightarrow> ?thesis" by simp
next
  case (Cons a t)
  show "block_len s \<noteq> None \<Longrightarrow> ?thesis"
  proof (cases t)
    case Nil
    with Cons show "block_len s \<noteq> None \<Longrightarrow> ?thesis" by simp
  next
    case (Cons b rest)
    assume "block_len s \<noteq> None"
    with Cons \<open>s = a # t\<close> have "find_close rest \<noteq> None" by (auto split: if_splits)
    then have "find_close (b # rest) \<noteq> None" by (rule find_close_Cons)
    then have "find_close (a # b # rest) \<noteq> None" by (rule find_close_Cons)
    with Cons \<open>s = a # t\<close> show ?thesis by simp
  qed
qed

lemma has_block_find_close: "has_block s \<Longrightarrow> find_close s \<noteq> None"
proof (induction s)
  case Nil
  then show ?case by simp
next
  case (Cons c cs)
  from Cons.prems have "block_len (c # cs) \<noteq> None \<or> has_block cs" by simp
  then show ?case
  proof
    assume "block_len (c # cs) \<noteq> None"
    then show ?thesis by (rule block_len_find_close)
  next
    assume "has_block cs"
    then have "find_close cs \<noteq> None" by (rule Cons.IH)
    then show ?thesis by (rule find_close_Cons)
  qed
qed

lemma has_block_drop: "has_block (drop i s) \<Longrightarrow> has_block s"
proof (induction s arbitrary: i)
  case Nil
  then show ?case by simp
next
  case (Cons c cs)
  then show ?case by (cases i) auto
qed

lemma block_sub_fixed:
  "\<not> has_block s \<Longrightarrow> re_sub_from COMMENT_BLOCK_RE rep p s = s"
proof (induction s arbitrary: p)
  case Nil
  then show ?case by (simp add: rmatch_COMMENT_BLOCK_RE)
next
  case (Cons c cs)
  then show ?case by (simp add: rmatch_COMMENT_BLOCK_RE)
qed

lemma block_sub_Nil: "re_sub_from COMMENT_BLOCK_RE rep p [] = []"
  by (simp add: rmatch_COMMENT_BLOCK_RE)

lemma block_sub_step:
  "re_sub_from COMMENT_BLOCK_RE (Const '' '') p (c # cs) =
     (case block_len (c # cs) of
        None \<Rightarrow> c # re_sub_from COMMENT_BLOCK_RE (Const '' '') (Some c) cs
      | Some n \<Rightarrow> CHR '' '' #
          re_sub_from COMMENT_BLOCK_RE (Const '' '') (Some ((c # cs) ! (n - 1))) (drop n (c # cs)))"
proof (cases "block_len (c # cs)")
  case None
  then show ?thesis by (simp add: rmatch_COMMENT_BLOCK_RE)
next
  case (Some n)
  then have "n \<noteq> 0" using block_len_bounds by fastforce
  with Some show ?thesis by (simp add: rmatch_COMMENT_BLOCK_RE)
qed

declare re_sub_from.simps [simp del]

lemma block_sub_hd:
  "re_sub_from COMMENT_BLOCK_RE (Const '' '') p (d # ds) = y # ys \<Longrightarrow> y = d \<or> y = CHR '' ''"
  unfolding block_sub_step by (cases "block_len (d # ds)") simp_all

lemma block_sub_no_block:
  "\<not> has_block (re_sub_from COMMENT_BLOCK_RE (Const '' '') p s)"
proof (induction "length s" arbitrary: s p rule: less_induct)
  case less
  show ?case
  proof (cases s)
    case Nil
    then show ?thesis by (simp add: block_sub_Nil)
  next
    case (Cons c cs)
    show ?thesis
    proof (cases "block_len (c # cs)")
      case (Some n)
      then have "4 \<le> n" using block_len_bounds by blast
      then have "length (drop n (c # cs)) < length s" using Cons by simp
      from less [OF this] Some Cons show ?thesis
        by (simp add: block_sub_step block_len_other)
    next
      case None
      let ?Y = "re_sub_from COMMENT_BLOCK_RE (Const '' '') (Some c) cs"
      have y: "\<not> has_block ?Y" using less [of cs] Cons by simp
      have "block_len (c # ?Y) = None"
      proof (rule ccontr)
        assume a: "block_len (c # ?Y) \<noteq> None"
        then obtain Y' where Y: "?Y = CHR ''*'' # Y'" and c: "c = CHR ''/''"
          and f: "find_close Y' \<noteq> None"
          by (cases ?Y) (auto split: if_splits)
        from Y obtain d ds where cs: "cs = d # ds"
          by (cases cs) (auto simp: block_sub_Nil)
        with Y have "CHR ''*'' = d \<or> CHR ''*'' = CHR '' ''" using block_sub_hd by metis
        then have d: "d = CHR ''*''" by auto
        with c cs None have fd: "find_close ds = None" by simp
        from d cs Y have Y': "Y' = re_sub_from COMMENT_BLOCK_RE (Const '' '') (Some d) ds"
          by (cases ds) (simp_all add: block_sub_step)
        from fd have "\<not> has_block ds" using has_block_find_close by blast
        then have "re_sub_from COMMENT_BLOCK_RE (Const '' '') (Some d) ds = ds"
          by (rule block_sub_fixed)
        with Y' fd f show False by simp
      qed
      with y None Cons show ?thesis by (simp add: block_sub_step)
    qed
  qed
qed

subsection \<open>Line comments\<close>

lemma not_dot: "\<not> dot c \<longleftrightarrow> c = CHR ''\<newline>''"
  by (simp add: dot_def)

lemma rmatch_dot_eol:
  "rmatch [A (Star dot), A Eol] p s n g = Some (n + length (takeWhile dot s), g)"
proof (induction s arbitrary: p n)
  case Nil
  then show ?case by simp
next
  case (Cons c cs)
  then show ?case by (cases "dot c") (simp_all add: not_dot)
qed

lemma rmatch_slashes:
  "rmatch [A (Cls (\<lambda>c. c = CHR ''/'')), A (Cls (\<lambda>c. c = CHR ''/'')), A (Star dot), A Eol] p s n g
     = (if starts_slashes s then Some (n + 2 + length (takeWhile dot (tl (tl s))), g) else None)"
proof (cases s)
  case Nil
  then show ?thesis by simp
next
  case (Cons a t)
  then show ?thesis by (cases t) (simp_all add: rmatch_dot_eol)
qed

lemma rmatch_COMMENT_LINE_RE: "rmatch COMMENT_LINE_RE p s 0 (0, 0) = line_match p s"
proof -
  define T where
    "T = [A (Cls (\<lambda>c. c = CHR ''/'')), A (Cls (\<lambda>c. c = CHR ''/'')), A (Star dot), A Eol]"
  have pat: "COMMENT_LINE_RE = A GOpen # Alt [[Cls not_colon], [Bol]] # A GClose # T"
    by (simp add: COMMENT_LINE_RE_def lit_def T_def)
  have t: "rmatch T q x n g =
      (if starts_slashes x then Some (n + 2 + length (takeWhile dot (tl (tl x))), g)
       else None)" for q x n g
    unfolding T_def by (simp add: rmatch_slashes)
  have b1: "rmatch (A (Cls not_colon) # A GClose # T) p s 0 (0, 0) =
      (case s of [] \<Rightarrow> None
       | c # cs \<Rightarrow> if c \<noteq> CHR '':'' \<and> starts_slashes cs
                  then Some (3 + length (takeWhile dot (tl (tl cs))), 0, 1) else None)"
    by (cases s) (simp_all add: t not_colon_def eval_nat_numeral del: starts_slashes.simps)
  have b2: "rmatch (A Bol # A GClose # T) p s 0 (0, 0) =
      (if bol p \<and> starts_slashes s
       then Some (2 + length (takeWhile dot (tl (tl s))), 0, 0) else None)"
    by (simp add: t bol_def del: starts_slashes.simps)
  have alt: "rmatch COMMENT_LINE_RE p s 0 (0, 0) =
      (case rmatch (A (Cls not_colon) # A GClose # T) p s 0 (0, 0) of
         Some m \<Rightarrow> Some m
       | None \<Rightarrow> rmatch (A Bol # A GClose # T) p s 0 (0, 0))"
    unfolding pat by (simp split: option.splits)
  show ?thesis
  proof (cases s)
    case Nil
    then show ?thesis unfolding alt b1 b2 by simp
  next
    case (Cons c cs)
    show ?thesis unfolding alt b1 b2 by (simp add: Cons del: starts_slashes.simps)
  qed
qed

lemma dropWhile_dot_hd: "dropWhile dot x = [] \<or> hd (dropWhile dot x) = CHR ''\<newline>''"
proof (cases "dropWhile dot x = []")
  case True
  then show ?thesis by simp
next
  case False
  then have "\<not> dot (hd (dropWhile dot x))" by (rule hd_dropWhile)
  then show ?thesis by (simp add: not_dot)
qed

lemma newline_no_slashes: "x = [] \<or> hd x = CHR ''\<newline>'' \<Longrightarrow> \<not> starts_slashes x"
proof (cases x)
  case Nil
  then show ?thesis by simp
next
  case (Cons a t)
  assume "x = [] \<or> hd x = CHR ''\<newline>''"
  with Cons show ?thesis by (cases t) auto
qed

lemma line_match_prev: "\<not> starts_slashes s \<Longrightarrow> line_match p s = line_match q s"
proof (cases s)
  case Nil
  then show ?thesis by simp
next
  case (Cons c cs)
  assume "\<not> starts_slashes s"
  then have "\<not> starts_slashes (c # cs)" unfolding Cons .
  then show ?thesis unfolding Cons line_match.simps by (simp only: simp_thms if_False)
qed

lemma line_sub_Nil: "re_sub_from COMMENT_LINE_RE Group1 p [] = []"
  by (simp add: re_sub_from.simps rmatch_COMMENT_LINE_RE)

lemma line_sub_prev:
  "\<not> starts_slashes s \<Longrightarrow>
     re_sub_from COMMENT_LINE_RE Group1 p s = re_sub_from COMMENT_LINE_RE Group1 q s"
proof (cases s)
  case Nil
  then show ?thesis by (simp add: line_sub_Nil)
next
  case (Cons c cs)
  assume "\<not> starts_slashes s"
  then have "line_match p (c # cs) = line_match q (c # cs)"
    unfolding Cons by (rule line_match_prev)
  then show ?thesis
    unfolding Cons re_sub_from.simps rmatch_COMMENT_LINE_RE by simp
qed

lemma drop_takeWhile: "drop (length (takeWhile P x)) x = dropWhile P x"
  by (simp add: dropWhile_eq_drop)

lemma line_sub_step:
  "re_sub_from COMMENT_LINE_RE Group1 p (c # cs) =
     (if c \<noteq> CHR '':'' \<and> starts_slashes cs
      then c # re_sub_from COMMENT_LINE_RE Group1 None (dropWhile dot (tl (tl cs)))
      else if bol p \<and> starts_slashes (c # cs)
      then re_sub_from COMMENT_LINE_RE Group1 None (dropWhile dot (tl cs))
      else c # re_sub_from COMMENT_LINE_RE Group1 (Some c) cs)"
proof -
  have ns: "\<not> starts_slashes (dropWhile dot x)" for x
    using dropWhile_dot_hd newline_no_slashes by blast
  have pr: "re_sub_from COMMENT_LINE_RE Group1 (Some z) (dropWhile dot x)
            = re_sub_from COMMENT_LINE_RE Group1 None (dropWhile dot x)" for z x
    using ns by (rule line_sub_prev)
  consider (one) "c \<noteq> CHR '':'' \<and> starts_slashes cs"
    | (two) "\<not> (c \<noteq> CHR '':'' \<and> starts_slashes cs)" "bol p \<and> starts_slashes (c # cs)"
    | (three) "\<not> (c \<noteq> CHR '':'' \<and> starts_slashes cs)" "\<not> (bol p \<and> starts_slashes (c # cs))"
    by blast
  then show ?thesis
  proof cases
    case one
    then obtain rest where cs: "cs = CHR ''/'' # CHR ''/'' # rest"
      by (cases cs rule: starts_slashes.cases) auto
    have d: "drop (3 + length (takeWhile dot rest)) (c # cs) = dropWhile dot rest"
      unfolding cs by (simp add: eval_nat_numeral drop_takeWhile)
    have m: "line_match p (c # cs) = Some (3 + length (takeWhile dot rest), 0, 1)"
      using one cs by simp
    show ?thesis
      unfolding re_sub_from.simps rmatch_COMMENT_LINE_RE m
      using one d cs by (simp add: pr)
  next
    case two
    then obtain rest where cs: "cs = CHR ''/'' # rest" and c: "c = CHR ''/''"
      by (cases cs) auto
    have d: "drop (2 + length (takeWhile dot rest)) (c # cs) = dropWhile dot rest"
      unfolding cs by (simp add: eval_nat_numeral drop_takeWhile)
    have m: "line_match p (c # cs) = Some (2 + length (takeWhile dot rest), 0, 0)"
      using two cs by simp
    show ?thesis
      unfolding re_sub_from.simps rmatch_COMMENT_LINE_RE m
      using two d cs by (simp add: pr)
  next
    case three
    then have m: "line_match p (c # cs) = None" by simp
    show ?thesis
      unfolding re_sub_from.simps rmatch_COMMENT_LINE_RE m
      by (simp only: three if_False option.case)
  qed
qed

text \<open>The text behind a removed comment is empty or starts a new line, and so does its image.\<close>

lemma line_sub_newline:
  assumes "x = [] \<or> hd x = CHR ''\<newline>''"
  shows "re_sub_from COMMENT_LINE_RE Group1 p x = []
         \<or> hd (re_sub_from COMMENT_LINE_RE Group1 p x) = CHR ''\<newline>''"
proof (cases x)
  case Nil
  then show ?thesis by (simp add: line_sub_Nil)
next
  case (Cons c cs)
  with assms have c: "c = CHR ''\<newline>''" by simp
  then have "\<not> starts_slashes (c # cs)" by (cases cs) auto
  with c show ?thesis unfolding Cons line_sub_step by simp
qed

lemma line_sub_rest:
  "re_sub_from COMMENT_LINE_RE Group1 p (dropWhile dot x) = []
   \<or> hd (re_sub_from COMMENT_LINE_RE Group1 p (dropWhile dot x)) = CHR ''\<newline>''"
  using dropWhile_dot_hd by (rule line_sub_newline)

lemma line_sub_hd:
  assumes "re_sub_from COMMENT_LINE_RE Group1 p (d # ds) = y # ys"
  shows "y = d \<or> y = CHR ''\<newline>''"
proof -
  consider (one) "d \<noteq> CHR '':'' \<and> starts_slashes ds"
    | (two) "\<not> (d \<noteq> CHR '':'' \<and> starts_slashes ds)" "bol p \<and> starts_slashes (d # ds)"
    | (three) "\<not> (d \<noteq> CHR '':'' \<and> starts_slashes ds)" "\<not> (bol p \<and> starts_slashes (d # ds))"
    by blast
  then show ?thesis
  proof cases
    case one
    with assms show ?thesis unfolding line_sub_step by simp
  next
    case two
    with assms have "re_sub_from COMMENT_LINE_RE Group1 None (dropWhile dot (tl ds)) = y # ys"
      unfolding line_sub_step by simp
    with line_sub_rest [of None "tl ds"] show ?thesis by simp
  next
    case three
    with assms show ?thesis unfolding line_sub_step by simp
  qed
qed

lemma line_sub_one:
  "c \<noteq> CHR '':'' \<and> starts_slashes cs \<Longrightarrow>
     re_sub_from COMMENT_LINE_RE Group1 p (c # cs)
       = c # re_sub_from COMMENT_LINE_RE Group1 None (dropWhile dot (tl (tl cs)))"
  unfolding line_sub_step by (simp only: if_True simp_thms)

lemma line_sub_two:
  "\<not> (c \<noteq> CHR '':'' \<and> starts_slashes cs) \<Longrightarrow> bol p \<and> starts_slashes (c # cs) \<Longrightarrow>
     re_sub_from COMMENT_LINE_RE Group1 p (c # cs)
       = re_sub_from COMMENT_LINE_RE Group1 None (dropWhile dot (tl cs))"
  unfolding line_sub_step by (simp only: if_True if_False simp_thms)

lemma line_sub_three:
  "\<not> (c \<noteq> CHR '':'' \<and> starts_slashes cs) \<Longrightarrow> \<not> (bol p \<and> starts_slashes (c # cs)) \<Longrightarrow>
     re_sub_from COMMENT_LINE_RE Group1 p (c # cs)
       = c # re_sub_from COMMENT_LINE_RE Group1 (Some c) cs"
  unfolding line_sub_step by (simp only: if_False simp_thms)

lemma find_close_dropWhile: "find_close (dropWhile P x) \<noteq> None \<Longrightarrow> find_close x \<noteq> None"
  unfolding dropWhile_eq_drop by (rule find_close_drop)

lemma find_close_tl: "find_close (tl x) \<noteq> None \<Longrightarrow> find_close x \<noteq> None"
  by (cases x) (simp_all del: find_close.simps add: find_close_Cons)

lemma has_block_dropWhile: "has_block (dropWhile P x) \<Longrightarrow> has_block x"
  unfolding dropWhile_eq_drop by (rule has_block_drop)

lemma has_block_tl: "has_block (tl x) \<Longrightarrow> has_block x"
  by (cases x) simp_all

lemma find_close_rest1: "find_close (dropWhile P (tl cs)) \<noteq> None \<Longrightarrow> find_close cs \<noteq> None"
  by (rule find_close_tl, rule find_close_dropWhile)

lemma find_close_rest2:
  "find_close (dropWhile P (tl (tl cs))) \<noteq> None \<Longrightarrow> find_close cs \<noteq> None"
  by (rule find_close_tl, rule find_close_tl, rule find_close_dropWhile)

lemma has_block_rest1: "has_block (dropWhile P (tl cs)) \<Longrightarrow> has_block cs"
  by (rule has_block_tl, rule has_block_dropWhile)

lemma has_block_rest2: "has_block (dropWhile P (tl (tl cs))) \<Longrightarrow> has_block cs"
  by (rule has_block_tl, rule has_block_tl, rule has_block_dropWhile)

lemma has_block_Cons: "has_block cs \<Longrightarrow> has_block (c # cs)"
  by simp
text \<open>Removing line comments creates no \<^verbatim>\<open>*/\<close>.\<close>

lemma line_sub_find_close:
  "find_close (re_sub_from COMMENT_LINE_RE Group1 p x) \<noteq> None \<Longrightarrow> find_close x \<noteq> None"
proof (induction "length x" arbitrary: x p rule: less_induct)
  case less
  show ?case
  proof (cases x)
    case Nil
    with less.prems show ?thesis by (simp add: line_sub_Nil)
  next
    case (Cons c cs)
    consider (one) "c \<noteq> CHR '':'' \<and> starts_slashes cs"
      | (two) "\<not> (c \<noteq> CHR '':'' \<and> starts_slashes cs)" "bol p \<and> starts_slashes (c # cs)"
      | (three) "\<not> (c \<noteq> CHR '':'' \<and> starts_slashes cs)" "\<not> (bol p \<and> starts_slashes (c # cs))"
      by blast
    then show ?thesis
    proof cases
      case one
      let ?Z = "re_sub_from COMMENT_LINE_RE Group1 None (dropWhile dot (tl (tl cs)))"
      from less.prems have f: "find_close (c # ?Z) \<noteq> None"
        unfolding Cons line_sub_one [OF one] .
      have z: "?Z = [] \<or> hd ?Z = CHR ''\<newline>''" by (rule line_sub_rest)
      then have "\<not> (?Z \<noteq> [] \<and> hd ?Z = CHR ''/'')" by auto
      with f have "find_close ?Z \<noteq> None" unfolding find_close.simps by (simp split: if_splits)
      moreover have "length (dropWhile dot (tl (tl cs))) < length x"
        unfolding Cons dropWhile_eq_drop by simp
      ultimately have "find_close (dropWhile dot (tl (tl cs))) \<noteq> None"
        using less.hyps by blast
      then have "find_close cs \<noteq> None"
        by (rule find_close_rest2)
      then show ?thesis unfolding Cons by (rule find_close_Cons)
    next
      case two
      let ?Z = "re_sub_from COMMENT_LINE_RE Group1 None (dropWhile dot (tl cs))"
      from less.prems have f: "find_close ?Z \<noteq> None"
        unfolding Cons line_sub_two [OF two] .
      moreover have "length (dropWhile dot (tl cs)) < length x"
        unfolding Cons dropWhile_eq_drop by simp
      ultimately have "find_close (dropWhile dot (tl cs)) \<noteq> None"
        using less.hyps by blast
      then have "find_close cs \<noteq> None"
        by (rule find_close_rest1)
      then show ?thesis unfolding Cons by (rule find_close_Cons)
    next
      case three
      let ?Z = "re_sub_from COMMENT_LINE_RE Group1 (Some c) cs"
      from less.prems have f: "find_close (c # ?Z) \<noteq> None"
        unfolding Cons line_sub_three [OF three] .
      show ?thesis
      proof (cases "c = CHR ''*'' \<and> ?Z \<noteq> [] \<and> hd ?Z = CHR ''/''")
        case True
        then obtain ys where Z: "?Z = CHR ''/'' # ys" by (cases ?Z) auto
        then obtain d ds where cs: "cs = d # ds" by (cases cs) (auto simp: line_sub_Nil)
        from Z have "CHR ''/'' = d \<or> CHR ''/'' = CHR ''\<newline>''"
          unfolding cs by (rule line_sub_hd)
        then have "d = CHR ''/''" by auto
        with True cs show ?thesis unfolding Cons by simp
      next
        case False
        with f have "find_close ?Z \<noteq> None" unfolding find_close.simps by (simp split: if_splits)
        moreover have "length cs < length x" unfolding Cons by simp
        ultimately have "find_close cs \<noteq> None" using less.hyps by blast
        then show ?thesis unfolding Cons by (rule find_close_Cons)
      qed
    qed
  qed
qed
text \<open>Removing line comments creates no block comment.\<close>

lemma line_sub_has_block:
  "has_block (re_sub_from COMMENT_LINE_RE Group1 p r) \<Longrightarrow> has_block r"
proof (induction "length r" arbitrary: r p rule: less_induct)
  case less
  show ?case
  proof (cases r)
    case Nil
    with less.prems show ?thesis by (simp add: line_sub_Nil)
  next
    case (Cons c cs)
    consider (one) "c \<noteq> CHR '':'' \<and> starts_slashes cs"
      | (two) "\<not> (c \<noteq> CHR '':'' \<and> starts_slashes cs)" "bol p \<and> starts_slashes (c # cs)"
      | (three) "\<not> (c \<noteq> CHR '':'' \<and> starts_slashes cs)" "\<not> (bol p \<and> starts_slashes (c # cs))"
      by blast
    then show ?thesis
    proof cases
      case one
      let ?Z = "re_sub_from COMMENT_LINE_RE Group1 None (dropWhile dot (tl (tl cs)))"
      from less.prems have f: "has_block (c # ?Z)"
        unfolding Cons line_sub_one [OF one] .
      have z: "?Z = [] \<or> hd ?Z = CHR ''\<newline>''" by (rule line_sub_rest)
      have "block_len (c # ?Z) = None"
      proof (cases ?Z)
        case Nil
        then show ?thesis by simp
      next
        case (Cons a t)
        with z have "a = CHR ''\<newline>''" by simp
        with Cons show ?thesis by simp
      qed
      with f have "has_block ?Z" by simp
      moreover have "length (dropWhile dot (tl (tl cs))) < length r"
        unfolding Cons dropWhile_eq_drop by simp
      ultimately have "has_block (dropWhile dot (tl (tl cs)))"
        using less.hyps by blast
      then have "has_block cs" by (rule has_block_rest2)
      then show ?thesis unfolding Cons by (rule has_block_Cons)
    next
      case two
      let ?Z = "re_sub_from COMMENT_LINE_RE Group1 None (dropWhile dot (tl cs))"
      from less.prems have f: "has_block ?Z"
        unfolding Cons line_sub_two [OF two] .
      moreover have "length (dropWhile dot (tl cs)) < length r"
        unfolding Cons dropWhile_eq_drop by simp
      ultimately have "has_block (dropWhile dot (tl cs))"
        using less.hyps by blast
      then have "has_block cs" by (rule has_block_rest1)
      then show ?thesis unfolding Cons by (rule has_block_Cons)
    next
      case three
      let ?Z = "re_sub_from COMMENT_LINE_RE Group1 (Some c) cs"
      from less.prems have f: "has_block (c # ?Z)"
        unfolding Cons line_sub_three [OF three] .
      show ?thesis
      proof (cases "block_len (c # ?Z) = None")
        case True
        with f have "has_block ?Z" by simp
        moreover have "length cs < length r" unfolding Cons by simp
        ultimately have "has_block cs" using less.hyps by blast
        then show ?thesis unfolding Cons by (rule has_block_Cons)
      next
        case False
        then obtain Z' where Z: "?Z = CHR ''*'' # Z'" and c: "c = CHR ''/''"
          and fz: "find_close Z' \<noteq> None"
          by (cases ?Z) (auto split: if_splits)
        from Z obtain d ds where cs: "cs = d # ds" by (cases cs) (auto simp: line_sub_Nil)
        from Z have "CHR ''*'' = d \<or> CHR ''*'' = CHR ''\<newline>''"
          unfolding cs by (rule line_sub_hd)
        then have d: "d = CHR ''*''" by auto
        have ns: "\<not> (bol (Some c) \<and> starts_slashes (d # ds))"
          unfolding d by (cases ds) auto
        have "find_close ds \<noteq> None"
        proof (cases "d \<noteq> CHR '':'' \<and> starts_slashes ds")
          case True
          from Z have "Z' = re_sub_from COMMENT_LINE_RE Group1 None (dropWhile dot (tl (tl ds)))"
            unfolding cs line_sub_one [OF True] by auto
          with fz have "find_close (dropWhile dot (tl (tl ds))) \<noteq> None"
            using line_sub_find_close by blast
          then show ?thesis by (rule find_close_rest2)
        next
          case False
          from Z have "Z' = re_sub_from COMMENT_LINE_RE Group1 (Some d) ds"
            unfolding cs line_sub_three [OF False ns] by auto
          with fz show ?thesis using line_sub_find_close by blast
        qed
        then have "block_len (c # cs) \<noteq> None" unfolding c cs d by (cases "find_close ds") simp_all
        then show ?thesis unfolding Cons by simp
      qed
    qed
  qed
qed
text \<open>A text that starts with \<^verbatim>\<open>//\<close> after the pass started with it before.\<close>

lemma line_sub_slashes:
  assumes "starts_slashes (re_sub_from COMMENT_LINE_RE Group1 p x)"
  shows "starts_slashes x"
proof (cases x)
  case Nil
  with assms show ?thesis by (simp add: line_sub_Nil)
next
  case (Cons d ds)
  consider (one) "d \<noteq> CHR '':'' \<and> starts_slashes ds"
    | (two) "\<not> (d \<noteq> CHR '':'' \<and> starts_slashes ds)" "bol p \<and> starts_slashes (d # ds)"
    | (three) "\<not> (d \<noteq> CHR '':'' \<and> starts_slashes ds)" "\<not> (bol p \<and> starts_slashes (d # ds))"
    by blast
  then show ?thesis
  proof cases
    case one
    let ?Z = "re_sub_from COMMENT_LINE_RE Group1 None (dropWhile dot (tl (tl ds)))"
    from assms have s: "starts_slashes (d # ?Z)" unfolding Cons line_sub_one [OF one] .
    have "?Z = [] \<or> hd ?Z = CHR ''\<newline>''" by (rule line_sub_rest)
    with s show ?thesis by (cases ?Z) auto
  next
    case two
    let ?Z = "re_sub_from COMMENT_LINE_RE Group1 None (dropWhile dot (tl ds))"
    from assms have s: "starts_slashes ?Z" unfolding Cons line_sub_two [OF two] .
    have "?Z = [] \<or> hd ?Z = CHR ''\<newline>''" by (rule line_sub_rest)
    with s newline_no_slashes show ?thesis by blast
  next
    case three
    let ?W = "re_sub_from COMMENT_LINE_RE Group1 (Some d) ds"
    from assms have s: "starts_slashes (d # ?W)" unfolding Cons line_sub_three [OF three] .
    then obtain ys where W: "?W = CHR ''/'' # ys" and d: "d = CHR ''/''"
      by (cases ?W) auto
    from W obtain e es where ds: "ds = e # es" by (cases ds) (auto simp: line_sub_Nil)
    from W have "CHR ''/'' = e \<or> CHR ''/'' = CHR ''\<newline>''"
      unfolding ds by (rule line_sub_hd)
    then have "e = CHR ''/''" by auto
    with d ds show ?thesis unfolding Cons by simp
  qed
qed

lemma has_line_prev: "\<not> starts_slashes s \<Longrightarrow> has_line p s = has_line q s"
proof (cases s)
  case Nil
  then show ?thesis by simp
next
  case (Cons c cs)
  assume "\<not> starts_slashes s"
  then have "line_match p (c # cs) = line_match q (c # cs)"
    unfolding Cons by (rule line_match_prev)
  then show ?thesis unfolding Cons has_line.simps by simp
qed
text \<open>After the pass no line comment is left.\<close>

lemma line_sub_no_line:
  "\<not> has_line p (re_sub_from COMMENT_LINE_RE Group1 p r)"
proof (induction "length r" arbitrary: r p rule: less_induct)
  case less
  show ?case
  proof (cases r)
    case Nil
    then show ?thesis by (simp add: line_sub_Nil)
  next
    case (Cons c cs)
    consider (one) "c \<noteq> CHR '':'' \<and> starts_slashes cs"
      | (two) "\<not> (c \<noteq> CHR '':'' \<and> starts_slashes cs)" "bol p \<and> starts_slashes (c # cs)"
      | (three) "\<not> (c \<noteq> CHR '':'' \<and> starts_slashes cs)" "\<not> (bol p \<and> starts_slashes (c # cs))"
      by blast
    then show ?thesis
    proof cases
      case one
      let ?Z = "re_sub_from COMMENT_LINE_RE Group1 None (dropWhile dot (tl (tl cs)))"
      have out: "re_sub_from COMMENT_LINE_RE Group1 p r = c # ?Z"
        unfolding Cons by (rule line_sub_one [OF one])
      have z: "?Z = [] \<or> hd ?Z = CHR ''\<newline>''" by (rule line_sub_rest)
      then have nz: "\<not> starts_slashes ?Z" by (rule newline_no_slashes)
      have ncz: "\<not> starts_slashes (c # ?Z)" using z by (cases ?Z) auto
      have "length (dropWhile dot (tl (tl cs))) < length r"
        unfolding Cons dropWhile_eq_drop by simp
      then have "\<not> has_line None ?Z" using less.hyps by blast
      then have "\<not> has_line (Some c) ?Z" using has_line_prev [OF nz] by blast
      moreover have "line_match p (c # ?Z) = None"
        unfolding line_match.simps using nz ncz by (simp only: simp_thms if_False)
      ultimately show ?thesis unfolding out has_line.simps by simp
    next
      case two
      let ?Z = "re_sub_from COMMENT_LINE_RE Group1 None (dropWhile dot (tl cs))"
      have out: "re_sub_from COMMENT_LINE_RE Group1 p r = ?Z"
        unfolding Cons by (rule line_sub_two [OF two])
      have z: "?Z = [] \<or> hd ?Z = CHR ''\<newline>''" by (rule line_sub_rest)
      then have nz: "\<not> starts_slashes ?Z" by (rule newline_no_slashes)
      have "length (dropWhile dot (tl cs)) < length r"
        unfolding Cons dropWhile_eq_drop by simp
      then have "\<not> has_line None ?Z" using less.hyps by blast
      then show ?thesis unfolding out using has_line_prev [OF nz] by blast
    next
      case three
      let ?Z = "re_sub_from COMMENT_LINE_RE Group1 (Some c) cs"
      have out: "re_sub_from COMMENT_LINE_RE Group1 p r = c # ?Z"
        unfolding Cons by (rule line_sub_three [OF three])
      have "length cs < length r" unfolding Cons by simp
      then have ih: "\<not> has_line (Some c) ?Z" using less.hyps by blast
      have a: "\<not> (c \<noteq> CHR '':'' \<and> starts_slashes ?Z)"
        using three(1) line_sub_slashes by blast
      have b: "\<not> (bol p \<and> starts_slashes (c # ?Z))"
      proof
        assume h: "bol p \<and> starts_slashes (c # ?Z)"
        then obtain ys where Z: "?Z = CHR ''/'' # ys" and c: "c = CHR ''/''"
          by (cases ?Z) auto
        from Z obtain d ds where cs: "cs = d # ds" by (cases cs) (auto simp: line_sub_Nil)
        from Z have "CHR ''/'' = d \<or> CHR ''/'' = CHR ''\<newline>''"
          unfolding cs by (rule line_sub_hd)
        then have "d = CHR ''/''" by auto
        with c cs have "starts_slashes (c # cs)" by simp
        with h three(2) show False by blast
      qed
      from a b have "line_match p (c # ?Z) = None"
        unfolding line_match.simps by (simp only: if_False)
      with ih show ?thesis unfolding out has_line.simps by simp
    qed
  qed
qed
lemma line_sub_fixed:
  "\<not> has_line p s \<Longrightarrow> re_sub_from COMMENT_LINE_RE Group1 p s = s"
proof (induction s arbitrary: p)
  case Nil
  then show ?case by (simp add: line_sub_Nil)
next
  case (Cons c cs)
  then have m: "line_match p (c # cs) = None" and h: "\<not> has_line (Some c) cs"
    unfolding has_line.simps by blast+
  have "re_sub_from COMMENT_LINE_RE Group1 p (c # cs)
          = c # re_sub_from COMMENT_LINE_RE Group1 (Some c) cs"
    unfolding re_sub_from.simps rmatch_COMMENT_LINE_RE m by simp
  with Cons.IH [OF h] show ?case by simp
qed

text \<open>
  Claim C6. Stripping the comments of a text that \<^verbatim>\<open>strip_comments\<close> has produced changes
  nothing: the first pass leaves no block comment, the second creates none and leaves no
  line comment.
\<close>

theorem strip_comments_idempotent:
  "strip_comments (strip_comments s) = strip_comments s"
proof -
  let ?r = "re_sub COMMENT_BLOCK_RE (Const '' '') s"
  let ?t = "re_sub COMMENT_LINE_RE Group1 ?r"
  have t: "strip_comments s = ?t" by (simp add: strip_comments_def)
  have "\<not> has_block ?r" unfolding re_sub_def by (rule block_sub_no_block)
  then have "\<not> has_block ?t" unfolding re_sub_def using line_sub_has_block by blast
  then have b: "re_sub COMMENT_BLOCK_RE (Const '' '') ?t = ?t"
    unfolding re_sub_def by (rule block_sub_fixed)
  have "\<not> has_line None ?t" unfolding re_sub_def by (rule line_sub_no_line)
  then have l: "re_sub COMMENT_LINE_RE Group1 ?t = ?t"
    unfolding re_sub_def by (rule line_sub_fixed)
  have "strip_comments ?t = re_sub COMMENT_LINE_RE Group1 (re_sub COMMENT_BLOCK_RE (Const '' '') ?t)"
    by (simp add: strip_comments_def)
  also have "\<dots> = ?t" unfolding b l ..
  finally show ?thesis unfolding t .
qed

end
